theory Spec2Isabelle
  imports Main "HOL-Library.Sublist"
begin

section \<open>JavaScript string primitives used by the highlighter\<close>

text \<open>
  JavaScript strings are modelled as \<open>string\<close> (lists of 8-bit characters, one
  character per code unit).  \<open>str.replace(/c/g, r)\<close> for a single literal character
  \<open>c\<close> replaces every occurrence of \<open>c\<close>, left to right, by the text \<open>r\<close>.
\<close>

definition replace_char :: "char \<Rightarrow> string \<Rightarrow> string \<Rightarrow> string" where
  "replace_char c r s = concat (map (\<lambda>x. if x = c then r else [x]) s)"

section \<open>Escaping (Highlight, first two statements after the rule table)\<close>

text \<open>
  \<^verbatim>\<open>str = str.replace(/(>)/g, "&gt;"); str = str.replace(/(<)/g, "&lt;");\<close>
\<close>

definition escape :: "string \<Rightarrow> string" where
  "escape str = replace_char CHR ''<'' ''&lt;'' (replace_char CHR ''>'' ''&gt;'' str)"

section \<open>Token scanner (Highlight, the \<open>for(var regex in Colors)\<close> loop)\<close>

text \<open>
  The rule table \<open>Colors\<close> of \<open>Highlight\<close>, in declaration order (a \<open>for ... in\<close> loop
  visits string keys in insertion order).  Each key is a pattern source, each value the
  category name that ends up in \<open>var(--CATEGORY)\<close>.
\<close>

definition Colors :: "(string \<times> string) list" where
  \<open>Colors = [
    (''('' @ [CHR 0x5C] @ ''/'' @ [CHR 0x5C] @ ''/.*?(?:'' @ [CHR 0x5C] @ ''n|$)|'' @ [CHR 0x5C] @ ''/'' @ [CHR 0x5C] @ ''*(?:.|'' @ [CHR 0x5C] @ ''n|'' @ [CHR 0x5C] @ ''r)*?'' @ [CHR 0x5C] @ ''*'' @ [CHR 0x5C] @ ''/)'',
      ''COMMENT''),
    (''(?<!'' @ [CHR 0x5C] @ ''w)(?<!'' @ [CHR 0x5C] @ ''w)('' @ [CHR 0x5C] @ ''/(?:'' @ [CHR 0x5C, CHR 0x5C, CHR 0x5C] @ ''/|.)*?'' @ [CHR 0x5C] @ ''/[gmixsuXUAJD]*)(?!'' @ [CHR 0x5C] @ ''w)(?!'' @ [CHR 0x5C] @ ''s'' @ [CHR 0x5C] @ ''w)'',
      ''REGEX''),
    (''(?:^|[^a-zA-Z0-9_$])(?:'' @ [CHR 0x5C] @ ''+|-)?((?:0(?:[xX][0-9a-fA-F]+|[oO][0-7]+|[bB][0-1]+)|(?:'' @ [CHR 0x5C] @ ''d+'' @ [CHR 0x5C] @ ''.|'' @ [CHR 0x5C] @ ''.)?'' @ [CHR 0x5C] @ ''d+)(?:e(?:'' @ [CHR 0x5C] @ ''+|-)?'' @ [CHR 0x5C] @ ''d+)?)'',
      ''NUMBER''),
    (''[{,]'' @ [CHR 0x5C] @ ''s*(["'' @ [CHR 0x27, CHR 0x5C] @ ''`](?:[^"'' @ [CHR 0x27, CHR 0x5C] @ ''`'' @ [CHR 0x5C, CHR 0x5C] @ '']|'' @ [CHR 0x5C, CHR 0x5C] @ ''.)*["'' @ [CHR 0x27, CHR 0x5C] @ ''`]):'',
      ''VARIABLE''),
    (''(".*?"(?<!'' @ [CHR 0x5C, CHR 0x5C] @ ''")|'' @ [CHR 0x27] @ ''.*?'' @ [CHR 0x27] @ ''(?<!'' @ [CHR 0x5C, CHR 0x5C, CHR 0x27] @ ''))'',
      ''STRING''),
    (''(`(?:.|'' @ [CHR 0x5C] @ ''n|'' @ [CHR 0x5C] @ ''r'' @ [CHR 0x5C] @ ''n)*?`)(?<!'' @ [CHR 0x5C, CHR 0x5C] @ ''`)'',
      ''STRING''),
    (''(?:`|}).*?('' @ [CHR 0x5C] @ ''${)'',
      ''TEMPLATE_CODE''),
    (''(}).*?(?:`|'' @ [CHR 0x5C] @ ''${)'',
      ''TEMPLATE_CODE''),
    (''(?:new|class)'' @ [CHR 0x5C] @ ''s+([^0-9]'' @ [CHR 0x5C] @ ''w+)'',
      ''NAME''),
    (''(?:extends)'' @ [CHR 0x5C] @ ''s+([^0-9]'' @ [CHR 0x5C] @ ''w+)'',
      ''DATA_TYPE''),
    (''(?:^|[^a-zA-Z0-9_$])(Function|Number|Integer|Float|Boolean|public|private|signed|unsigned|console|Math|Date|Object|String|Array)(?!'' @ [CHR 0x5C] @ ''w)'',
      ''DATA_TYPE''),
    (''(?:'' @ [CHR 0x5C] @ ''*|'' @ [CHR 0x5C] @ ''w)'' @ [CHR 0x5C] @ ''s(as)'' @ [CHR 0x5C] @ ''s.'',
      ''IMPORT''),
    (''(?:^|[^a-zA-Z0-9_$])(?:import.*?)(from)(?!'' @ [CHR 0x5C] @ ''w)'',
      ''IMPORT''),
    (''(?:^|[^a-zA-Z0-9_$])(new|else|try|case|break|continue|return|default|throw|with|yield|await|import|#include|#define)(?!'' @ [CHR 0x5C] @ ''w)'',
      ''KEYWORD''),
    (''(?:^|[^a-zA-Z0-9_$])(true|false|Infinity|NaN|null|undefined)(?!'' @ [CHR 0x5C] @ ''w)'',
      ''CONSTANT''),
    (''(?:^|[^a-zA-Z0-9_$])(var|let|const|this|function|super|debugger|delete|export|async|constructor|of|in|typeof|instanceof|int|long|float|double|char|bool|void|static|class|extends|=&gt;)(?!'' @ [CHR 0x5C] @ ''w)'',
      ''STORAGE''),
    (''(?:^|[^a-zA-Z0-9_$])(document)(?!'' @ [CHR 0x5C] @ ''w)'',
      ''ENUM''),
    (''(?:^|[^a-zA-Z0-9_$])(for|while|do|if|eval|catch|switch)('' @ [CHR 0x5C] @ ''s*|)('' @ [CHR 0x5C] @ ''(|{)'',
      ''CONDITIONAL''),
    (''([A-Za-z_$][A-Za-z0-9_$]*)'' @ [CHR 0x5C] @ ''s*(?:'' @ [CHR 0x5C] @ ''(|'' @ [CHR 0x5C] @ ''?'' @ [CHR 0x5C] @ ''.'' @ [CHR 0x5C] @ ''(|='' @ [CHR 0x5C] @ ''s*(?:async)?'' @ [CHR 0x5C] @ ''s*(?:function|'' @ [CHR 0x5C] @ ''(|'' @ [CHR 0x5C] @ ''w+'' @ [CHR 0x5C] @ ''s*&gt;))'',
      ''FUNCTION''),
    (''(?:^|[^a-zA-Z0-9_$])([A-Z_$][A-Z0-9_$]*)(?!^|[a-zA-Z0-9_$])'',
      ''ENUM''),
    (''(&gt;|&lt;)'',
      ''ARITHMETIC''),
    (''([(){}'' @ [CHR 0x5C] @ ''['' @ [CHR 0x5C] @ '']+'' @ [CHR 0x5C] @ ''-*?%.:,;&|^!<>=~/])'',
      ''ARITHMETIC'')]\<close>

datatype error = SyntaxError | TypeError | RangeError | InternalError

text \<open>The values a replace callback receives in its rest parameter \<open>groups\<close>.\<close>

datatype jsval = JUndefined | JNum nat | JStr string

text \<open>
  One match as the runtime reports it to the callback of \<open>str.replace(regexp, callback)\<close>:
  the matched text, the capture groups \<open>p1 .. pn\<close> (\<open>None\<close> for a group that did not
  take part) and the offset of the match in the subject.
\<close>

record regex_match =
  m_text :: string
  m_groups :: "string option list"
  m_offset :: nat

text \<open>
  \<open>new RegExp(regex, "gm")\<close> followed by \<open>str.replace(regexp, ...)\<close> belongs to the
  JavaScript runtime.  It is a parameter of the model: given the pattern source and the
  subject it either throws or yields the non-overlapping matches in scan order.
\<close>

type_synonym regex_engine = "string \<Rightarrow> string \<Rightarrow> error + regex_match list"

text \<open>A JavaScript number that may be \<open>NaN\<close>.\<close>

datatype jsnum = Num int | NaN

text \<open>An entry \<open>[pos, color, pos + group.length]\<close> of \<open>positions\<close>.\<close>

type_synonym span = "nat \<times> string \<times> jsnum"

definition span_start :: "span \<Rightarrow> nat" where
  "span_start p = fst p"

definition span_color :: "span \<Rightarrow> string" where
  "span_color p = fst (snd p)"

definition span_end :: "span \<Rightarrow> jsnum" where
  "span_end p = snd (snd p)"

text \<open>\<open>haystack.indexOf(needle)\<close>; \<open>None\<close> stands for \<open>-1\<close>.\<close>

fun index_of :: "string \<Rightarrow> string \<Rightarrow> nat option" where
  "index_of g [] = (if g = [] then Some 0 else None)"
| "index_of g (c # cs) =
     (if prefix g (c # cs) then Some 0 else map_option Suc (index_of g cs))"

text \<open>Decimal rendering of a non-negative integer, as string conversion does.\<close>

fun show_nat :: "nat \<Rightarrow> string" where
  "show_nat n =
     (if n < 10 then [''0123456789'' ! n]
      else show_nat (n div 10) @ [''0123456789'' ! (n mod 10)])"

declare show_nat.simps [simp del]

definition is_digit :: "char \<Rightarrow> bool" where
  "is_digit c = (c \<in> set ''0123456789'')"

text \<open>
  \<^verbatim>\<open>var id = (regex.match(/==>([0-9])*$/) || "")[1];\<close>
  The key has to end in \<open>==>\<close> followed by digits only; the repeated group keeps its last
  iteration, so \<open>id\<close> is the last digit, and it is undefined when there is no digit.
\<close>

definition rule_id :: "string \<Rightarrow> char option" where
  "rule_id key =
     (let ds = takeWhile is_digit (rev key); rest = dropWhile is_digit (rev key)
      in if ds \<noteq> [] \<and> prefix ''>=='' rest then Some (hd ds) else None)"

text \<open>\<^verbatim>\<open>if(id) { index = +id; regex = regex.replace(/==>[0-9]*$/, ""); }\<close>\<close>

definition rule_index :: "string \<Rightarrow> nat" where
  "rule_index key = (case rule_id key of None \<Rightarrow> 0 | Some d \<Rightarrow> of_char d - 48)"

definition rule_regex :: "string \<Rightarrow> string" where
  "rule_regex key =
     (case rule_id key of
        None \<Rightarrow> key
      | Some d \<Rightarrow> rev (drop 3 (dropWhile is_digit (rev key))))"

text \<open>
  \<^verbatim>\<open>var color = Colors[`${regex}${id ? "==>" + id : ""}`];\<close>
  A key that is not in the table reads as \<open>undefined\<close>, which the template literal of the
  opening tag prints as the text \<open>undefined\<close>.
\<close>

definition rule_color :: "(string \<times> string) list \<Rightarrow> string \<Rightarrow> string" where
  "rule_color table key =
     (case map_of table
             (rule_regex key @ (case rule_id key of None \<Rightarrow> [] | Some d \<Rightarrow> ''==>'' @ [d])) of
        None \<Rightarrow> ''undefined''
      | Some c \<Rightarrow> c)"

text \<open>The array bound to \<open>...groups\<close>: the captures, then the offset, then the subject.\<close>

definition callback_groups :: "regex_match \<Rightarrow> string \<Rightarrow> jsval list" where
  "callback_groups m str =
     map (\<lambda>g. case g of None \<Rightarrow> JUndefined | Some s \<Rightarrow> JStr s) (m_groups m)
       @ [JNum (m_offset m), JStr str]"

definition js_nth :: "jsval list \<Rightarrow> nat \<Rightarrow> jsval" where
  "js_nth xs i = (if i < length xs then xs ! i else JUndefined)"

text \<open>
  The body of the replace callback.  \<open>offset\<close> is \<open>groups[groups.length - 2]\<close>, which by
  the shape of \<open>groups\<close> is the offset of the match.  \<open>match.substring(0, start)\<close> is empty
  when \<open>indexOf\<close> answers \<open>-1\<close>.  Reading \<open>.length\<close> of an undefined group throws a
  \<open>TypeError\<close>; of a number it is \<open>undefined\<close>, and the sum \<open>pos + undefined\<close> is \<open>NaN\<close>.
\<close>

definition span_of_match :: "nat \<Rightarrow> string \<Rightarrow> string \<Rightarrow> regex_match \<Rightarrow> error + span" where
  "span_of_match index color str m =
     (let match = m_text m; offset = m_offset m
      in case js_nth (callback_groups m str) index of
           JUndefined \<Rightarrow> Inl TypeError
         | JStr grp \<Rightarrow>
             (let bef = (case index_of grp match of None \<Rightarrow> [] | Some start \<Rightarrow> take start match);
                  pos = offset + length bef
              in Inr (pos, color, Num (int (pos + length grp))))
         | JNum k \<Rightarrow>
             (let bef = (case index_of (show_nat k) match of None \<Rightarrow> [] | Some start \<Rightarrow> take start match);
                  pos = offset + length bef
              in Inr (pos, color, NaN)))"

text \<open>The callback runs once per match, in order; the first exception ends the scan.\<close>

fun collect_spans :: "(regex_match \<Rightarrow> error + span) \<Rightarrow> regex_match list \<Rightarrow> error + span list" where
  "collect_spans f [] = Inr []"
| "collect_spans f (m # ms) =
     (case f m of
        Inl e \<Rightarrow> Inl e
      | Inr p \<Rightarrow> (case collect_spans f ms of Inl e \<Rightarrow> Inl e | Inr ps \<Rightarrow> Inr (p # ps)))"

text \<open>One iteration of the \<open>for ... in\<close> loop: the spans one rule pushes onto \<open>positions\<close>.\<close>

definition scan_rule :: "(string \<times> string) list \<Rightarrow> regex_engine \<Rightarrow> string \<Rightarrow> string \<Rightarrow> error + span list" where
  "scan_rule table engine str key =
     (case engine (rule_regex key) str of
        Inl e \<Rightarrow> Inl e
      | Inr ms \<Rightarrow> collect_spans (span_of_match (rule_index key) (rule_color table key) str) ms)"

text \<open>The whole loop: \<open>positions\<close> after all rules, or the exception that left the loop.\<close>

fun scan_rules :: "(string \<times> string) list \<Rightarrow> regex_engine \<Rightarrow> string \<Rightarrow> string list \<Rightarrow> error + span list" where
  "scan_rules table engine str [] = Inr []"
| "scan_rules table engine str (key # keys) =
     (case scan_rule table engine str key of
        Inl e \<Rightarrow> Inl e
      | Inr ps \<Rightarrow>
          (case scan_rules table engine str keys of Inl e \<Rightarrow> Inl e | Inr qs \<Rightarrow> Inr (ps @ qs)))"

definition scan :: "regex_engine \<Rightarrow> string \<Rightarrow> error + span list" where
  "scan engine str = scan_rules Colors engine str (map fst Colors)"

section \<open>Span compositor (Highlight, \<open>positions.sort\<close> and the \<open>for ... of\<close> loop)\<close>

text \<open>
  \<^verbatim>\<open>positions.sort((a, b) => a[0] - b[0])\<close>: a stable sort on the start offset, so entries
  with equal starts keep the order in which the rules pushed them.
\<close>

definition sort_positions :: "span list \<Rightarrow> span list" where
  "sort_positions positions = sort_key span_start positions"

definition open_tag :: "string \<Rightarrow> string" where
  \<open>open_tag color = ''<span style="color: var(--'' @ color @ '')">''\<close>

definition close_tag :: string where
  "close_tag = ''</span>''"

text \<open>\<open>a < b\<close> on numbers; any comparison with \<open>NaN\<close> is false.\<close>

fun js_less :: "int \<Rightarrow> jsnum \<Rightarrow> bool" where
  "js_less a (Num b) = (a < b)"
| "js_less a NaN = False"

text \<open>
  \<open>str.slice(0, p)\<close> and \<open>str.slice(p)\<close>: a negative index counts from the end of the
  string, and \<open>NaN\<close> is read as \<open>0\<close>.
\<close>

fun slice_index :: "jsnum \<Rightarrow> string \<Rightarrow> nat" where
  "slice_index (Num p) s = (if p < 0 then length s - nat (- p) else nat p)"
| "slice_index NaN s = 0"

definition insert_text :: "jsnum \<Rightarrow> string \<Rightarrow> string \<Rightarrow> string" where
  "insert_text p t s = take (slice_index p s) s @ t @ drop (slice_index p s) s"

text \<open>\<open>text0.length + end + offset\<close>\<close>

fun js_add :: "nat \<Rightarrow> jsnum \<Rightarrow> jsnum" where
  "js_add n (Num e) = Num (int n + e)"
| "js_add n NaN = NaN"

text \<open>The variables the loop updates: \<open>str\<close>, \<open>offset\<close>, \<open>Start\<close> and \<open>End\<close>.\<close>

record compositor =
  c_str :: string
  c_offset :: nat
  c_Start :: int
  c_End :: jsnum

definition compositor_init :: "string \<Rightarrow> compositor" where
  "compositor_init str = \<lparr>c_str = str, c_offset = 0, c_Start = - 1, c_End = Num (- 1)\<rparr>"

text \<open>One pass through the loop body for the entry \<open>position\<close>.\<close>

definition wrap_span :: "span \<Rightarrow> compositor \<Rightarrow> compositor" where
  "wrap_span position st =
     (let start = span_start position; color = span_color position; end = span_end position
      in if js_less (int start) (c_End st) then st
         else
           (let pos0 = start + c_offset st;
                text0 = open_tag color;
                text1 = close_tag;
                pos1 = js_add (length text0 + c_offset st) end;
                str1 = insert_text (Num (int pos0)) text0 (c_str st);
                str2 = insert_text pos1 text1 str1
            in \<lparr>c_str = str2,
                c_offset = c_offset st + (length text0 + length text1),
                c_Start = int start,
                c_End = end\<rparr>))"

definition compose :: "span list \<Rightarrow> string \<Rightarrow> compositor" where
  "compose positions str = fold wrap_span (sort_positions positions) (compositor_init str)"

text \<open>
  The spans the loop does not skip, given the current value of \<open>End\<close>: exactly those
  whose start is not below the end of the span accepted last.
\<close>

fun accepted :: "jsnum \<Rightarrow> span list \<Rightarrow> span list" where
  "accepted End [] = []"
| "accepted End (p # ps) =
     (if js_less (int (span_start p)) End then accepted End ps
      else p # accepted (span_end p) ps)"

definition accepted_spans :: "span list \<Rightarrow> span list" where
  "accepted_spans positions = accepted (Num (- 1)) (sort_positions positions)"

text \<open>\<open>s2.start >= s1.end\<close> on numbers; false when the end is \<open>NaN\<close>.\<close>

fun js_ge :: "int \<Rightarrow> jsnum \<Rightarrow> bool" where
  "js_ge a (Num b) = (a \<ge> b)"
| "js_ge a NaN = False"

definition numeric_end :: "span \<Rightarrow> bool" where
  "numeric_end p = (span_end p \<noteq> NaN)"

text \<open>
  \<open>k\<close> is the offset of the first occurrence of the text \<open>grp\<close> within \<open>match\<close>.
\<close>

definition first_offset :: "string \<Rightarrow> string \<Rightarrow> nat \<Rightarrow> bool" where
  "first_offset grp match k =
     (k + length grp \<le> length match \<and> take (length grp) (drop k match) = grp \<and>
      (\<forall>j<k. take (length grp) (drop j match) \<noteq> grp))"

text \<open>The value of \<open>End\<close> once the loop has run over the given spans.\<close>

fun end_after :: "jsnum \<Rightarrow> span list \<Rightarrow> jsnum" where
  "end_after End [] = End"
| "end_after End (p # ps) =
     (if js_less (int (span_start p)) End then end_after End ps
      else end_after (span_end p) ps)"

section \<open>ComplexNumber.__getParseRegex\<close>

text \<open>\<open>array.join(separator)\<close>\<close>

fun js_join :: "string \<Rightarrow> string list \<Rightarrow> string" where
  "js_join sep [] = []"
| "js_join sep [x] = x"
| "js_join sep (x # y # ys) = x @ sep @ js_join sep (y # ys)"

definition DIGITS :: string where
  "DIGITS = ''([0-9.]+)''"

definition SIGN :: string where
  "SIGN = ''([+-])''"

definition IDENTIFIER :: string where
  "IDENTIFIER = ''([a-z])''"

definition syntax_alternatives :: "string list" where
  "syntax_alternatives =
     [SIGN @ ''?'' @ DIGITS @ SIGN @ DIGITS @ IDENTIFIER,
      SIGN @ ''?'' @ DIGITS @ SIGN @ IDENTIFIER @ DIGITS,
      SIGN @ ''?'' @ DIGITS @ IDENTIFIER @ SIGN @ DIGITS,
      SIGN @ ''?'' @ IDENTIFIER @ DIGITS @ SIGN @ DIGITS,
      SIGN @ ''?'' @ DIGITS,
      SIGN @ ''?'' @ DIGITS @ IDENTIFIER,
      SIGN @ ''?'' @ IDENTIFIER @ DIGITS]"

text \<open>The pattern handed to \<open>new RegExp\<close>: \<^verbatim>\<open>`^(?:${syntax.join("|")})$`\<close>.\<close>

definition parse_pattern :: string where
  "parse_pattern = ''^(?:'' @ js_join ''|'' syntax_alternatives @ '')$''"

text \<open>
  A \<open>RegExp\<close> object: its identity (the number of \<open>RegExp\<close> objects created before it),
  its source and its flags.
\<close>

record regexp =
  re_id :: nat
  re_source :: string
  re_flags :: string

text \<open>
  The state the method reads and writes: the static field \<open>ComplexNumber.__parseRegex\<close>
  (\<open>None\<close> while it is undefined) and the count of \<open>RegExp\<close> objects created so far.
\<close>

record statics =
  parseRegex :: "regexp option"
  created :: nat

text \<open>
  \<^verbatim>\<open>if(this.__parseRegex) return this.__parseRegex; ...
  return this.__parseRegex = new RegExp(..., "mi");\<close>
  An object is truthy, so the first branch is taken exactly when the field is set.
\<close>

definition getParseRegex :: "statics \<Rightarrow> regexp \<times> statics" where
  "getParseRegex st =
     (case parseRegex st of
        Some r \<Rightarrow> (r, st)
      | None \<Rightarrow>
          (let r = \<lparr>re_id = created st, re_source = parse_pattern, re_flags = ''mi''\<rparr>
           in (r, st\<lparr>parseRegex := Some r, created := Suc (created st)\<rparr>)))"

text \<open>\<open>n\<close> calls in a row: the values returned, in order, and the final state.\<close>

fun call_times :: "nat \<Rightarrow> statics \<Rightarrow> regexp list \<times> statics" where
  "call_times 0 st = ([], st)"
| "call_times (Suc n) st =
     (let (r, st1) = getParseRegex st; (rs, st2) = call_times n st1 in (r # rs, st2))"

section \<open>Closing spans at line ends (Highlight, the second \<open>str.replace\<close> of the \<open>try\<close> block)\<close>

definition LF :: char where
  "LF = CHR 0x0A"

definition CR :: char where
  "CR = CHR 0x0D"

text \<open>The characters \<open>.\<close> does not match (line terminators among 8-bit characters).\<close>

definition line_terminator :: "char \<Rightarrow> bool" where
  "line_terminator c = (c = LF \<or> c = CR)"

text \<open>Letter case is ignored under the \<open>i\<close> flag.\<close>

definition to_lower :: "char \<Rightarrow> char" where
  "to_lower c =
     (case index_of [c] ''ABCDEFGHIJKLMNOPQRSTUVWXYZ'' of
        None \<Rightarrow> c
      | Some i \<Rightarrow> ''abcdefghijklmnopqrstuvwxyz'' ! i)"

definition ci_prefix :: "string \<Rightarrow> string \<Rightarrow> bool" where
  "ci_prefix p s = prefix p (map to_lower (take (length p) s))"

text \<open>
  \<^verbatim>\<open>((?:.|\r\n)*?)(<\/span>)\<close> at the start of the given text: the shortest run of units
  (one character that is no line terminator, or a carriage return followed by a line
  feed) after which the closing tag stands.  The answer is \<open>(sub, text1)\<close>.
\<close>

fun match_sub :: "string \<Rightarrow> (string \<times> string) option" where
  "match_sub [] = None"
| "match_sub (c # cs) =
     (if ci_prefix ''</span>'' (c # cs) then Some ([], take 7 (c # cs))
      else if \<not> line_terminator c then
        map_option (\<lambda>(sub, text1). (c # sub, text1)) (match_sub cs)
      else if c = CR \<and> prefix [LF] cs then
        map_option (\<lambda>(sub, text1). (c # LF # sub, text1)) (match_sub (tl cs))
      else None)"

text \<open>
  \<^verbatim>\<open>.*?">\<close> followed by the rest of the expression: the lazy quantifier stops at the first
  \<^verbatim>\<open>">\<close> from which the rest matches.  The answer is \<open>(end of text0, sub, text1)\<close>.
\<close>

fun match_open :: "string \<Rightarrow> (string \<times> string \<times> string) option" where
  "match_open [] = None"
| \<open>match_open (c # cs) =
     (case (if prefix ''">'' (c # cs) then match_sub (tl cs) else None) of
        Some (sub, text1) \<Rightarrow> Some (''">'', sub, text1)
      | None \<Rightarrow>
          if line_terminator c then None
          else map_option (\<lambda>(t, sub, text1). (c # t, sub, text1)) (match_open cs))\<close>

text \<open>
  A match of \<^verbatim>\<open>/(<span style=".*?">)((?:.|\r\n)*?)(<\/span>)/gim\<close> at the start of the
  text: \<open>(text0, sub, text1)\<close>.
\<close>

definition span_match :: "string \<Rightarrow> (string \<times> string \<times> string) option" where
  \<open>span_match s =
     (if ci_prefix ''<span style="'' s then
        map_option (\<lambda>(t, sub, text1). (take 13 s @ t, sub, text1)) (match_open (drop 13 s))
      else None)\<close>

text \<open>
  The callback: a span without a line feed is kept as it is; otherwise every line feed
  in it is replaced by the closing tag, the line feed and the opening tag.
\<close>

definition reopen_span :: "string \<Rightarrow> string \<Rightarrow> string \<Rightarrow> string" where
  "reopen_span text0 sub text1 =
     (if index_of [LF] sub = None then text0 @ sub @ text1
      else text0 @ replace_char LF (text1 @ [LF] @ text0) sub @ text1)"

text \<open>The global replace: after a match the scan goes on behind it.\<close>

fun close_spans_at_newlines :: "string \<Rightarrow> string" where
  "close_spans_at_newlines [] = []"
| "close_spans_at_newlines (c # cs) =
     (case span_match (c # cs) of
        None \<Rightarrow> c # close_spans_at_newlines cs
      | Some (text0, sub, text1) \<Rightarrow>
          reopen_span text0 sub text1
            @ close_spans_at_newlines (drop (length text0 + length sub + length text1 - 1) cs))"

text \<open>
  The \<open>try\<close> block on the escaped text: the scan, the sort, the composition and the
  closing of spans at line ends.  Only the scan can throw.
\<close>

definition try_block :: "regex_engine \<Rightarrow> string \<Rightarrow> error + string" where
  "try_block engine str =
     (case scan engine str of
        Inl e \<Rightarrow> Inl e
      | Inr positions \<Rightarrow> Inr (close_spans_at_newlines (c_str (compose positions str))))"

section \<open>Options (Highlight, the destructured second parameter)\<close>

text \<open>The options object as passed: a property that is absent or undefined is \<open>None\<close>.\<close>

record HighlightOptions =
  opt_tabSize :: "nat option"
  opt_indentLines :: "bool option"
  opt_wrapLines :: "bool option"
  opt_lineNumbers :: "bool option"
  opt_style :: "bool option"
  opt_colorVariables :: "bool option"
  opt_fontSize :: "nat option"
  opt_lineHeight :: "nat option"
  opt_allowSelection :: "bool option"
  opt_debug :: "bool option"

text \<open>The local variables the destructuring binds.\<close>

record options =
  tabSize :: nat
  indentLines :: bool
  wrapLines :: bool
  lineNumbers :: bool
  style :: bool
  colorVariables :: bool
  fontSize :: nat
  lineHeight :: nat
  allowSelection :: bool
  debug :: bool

text \<open>The empty object \<open>{}\<close> that stands in for an omitted second argument.\<close>

definition empty_options :: HighlightOptions where
  "empty_options =
     \<lparr>opt_tabSize = None, opt_indentLines = None, opt_wrapLines = None,
      opt_lineNumbers = None, opt_style = None, opt_colorVariables = None,
      opt_fontSize = None, opt_lineHeight = None, opt_allowSelection = None,
      opt_debug = None\<rparr>"

definition or_default :: "'a option \<Rightarrow> 'a \<Rightarrow> 'a" where
  "or_default v d = (case v of None \<Rightarrow> d | Some x \<Rightarrow> x)"

text \<open>
  The parameter list of \<open>Highlight\<close> in the newer source file (the one whose name is
  not known): \<open>allowSelection = false\<close>.
\<close>

definition resolve_options :: "HighlightOptions option \<Rightarrow> options" where
  "resolve_options arg =
     (let given = or_default arg empty_options
      in \<lparr>tabSize = or_default (opt_tabSize given) 4,
          indentLines = or_default (opt_indentLines given) True,
          wrapLines = or_default (opt_wrapLines given) False,
          lineNumbers = or_default (opt_lineNumbers given) True,
          style = or_default (opt_style given) True,
          colorVariables = or_default (opt_colorVariables given) True,
          fontSize = or_default (opt_fontSize given) 14,
          lineHeight = or_default (opt_lineHeight given) 18,
          allowSelection = or_default (opt_allowSelection given) False,
          debug = or_default (opt_debug given) False\<rparr>)"

text \<open>The parameter list of \<open>Highlight\<close> in \<open>JustLib.js\<close>: \<open>allowSelection = true\<close>.\<close>

definition resolve_options_JustLib :: "HighlightOptions option \<Rightarrow> options" where
  "resolve_options_JustLib arg =
     (let given = or_default arg empty_options
      in \<lparr>tabSize = or_default (opt_tabSize given) 4,
          indentLines = or_default (opt_indentLines given) True,
          wrapLines = or_default (opt_wrapLines given) False,
          lineNumbers = or_default (opt_lineNumbers given) True,
          style = or_default (opt_style given) True,
          colorVariables = or_default (opt_colorVariables given) True,
          fontSize = or_default (opt_fontSize given) 14,
          lineHeight = or_default (opt_lineHeight given) 18,
          allowSelection = or_default (opt_allowSelection given) True,
          debug = or_default (opt_debug given) False\<rparr>)"

text \<open>
  The click handler and the attribute slot of the outer \<open>div\<close>:
  \<^verbatim>\<open>${allowSelection ? 'onmousedown="' + js + '"' : ""}\<close>.
  The two source files differ in how the handler reads the event path.
\<close>

definition js_handler :: string where
  \<open>js_handler = ''toggleClass(get(this, '' @ [CHR 0x27] @ ''.selected'' @ [CHR 0x27] @ ''), ''
     @ [CHR 0x27] @ ''selected'' @ [CHR 0x27] @ '', false); toggleClass(event.composedPath().filter(e => e.tagName && e.tagName.toLowerCase() == ''
     @ [CHR 0x27] @ ''tr'' @ [CHR 0x27] @ '')[0], '' @ [CHR 0x27] @ ''selected'' @ [CHR 0x27] @ '', true);''\<close>

definition js_handler_JustLib :: string where
  \<open>js_handler_JustLib = ''toggleClass(get(this, '' @ [CHR 0x27] @ ''.selected'' @ [CHR 0x27] @ ''), ''
     @ [CHR 0x27] @ ''selected'' @ [CHR 0x27] @ '', false); toggleClass(event.path.filter(e => e.tagName && e.tagName.toLowerCase() == ''
     @ [CHR 0x27] @ ''tr'' @ [CHR 0x27] @ '')[0], '' @ [CHR 0x27] @ ''selected'' @ [CHR 0x27] @ '', true);''\<close>

definition selection_attribute :: "string \<Rightarrow> options \<Rightarrow> string" where
  \<open>selection_attribute js opts = (if allowSelection opts then ''onmousedown="'' @ js @ ''"'' else [])\<close>

section \<open>Line and indent reconstruction (Highlight, after the \<open>try\<close> block)\<close>

definition NBSP :: string where
  "NBSP = ''&nbsp;''"

text \<open>\<^verbatim>\<open>const TAB = range(tabSize).reduce(prev => prev + "&nbsp;", "")\<close>\<close>

definition TAB :: "nat \<Rightarrow> string" where
  "TAB n = concat (replicate n NBSP)"

definition INDENT :: string where
  \<open>INDENT = ''<span class="highlight-indent"></span>''\<close>

definition BR :: string where
  "BR = ''<br>''"

text \<open>\<^verbatim>\<open>str.replace(/  /g, "&nbsp;&nbsp;")\<close>: pairs of spaces, left to right.\<close>

fun replace_double_space :: "string \<Rightarrow> string" where
  "replace_double_space (a # b # cs) =
     (if a = CHR '' '' \<and> b = CHR '' '' then NBSP @ NBSP @ replace_double_space cs
      else a # replace_double_space (b # cs))"
| "replace_double_space cs = cs"

text \<open>\<open>str.split("\n")\<close>\<close>

fun split_lines :: "string \<Rightarrow> string list" where
  "split_lines [] = [[]]"
| "split_lines (c # cs) =
     (if c = LF then [] # split_lines cs
      else (case split_lines cs of [] \<Rightarrow> [[c]] | l # ls \<Rightarrow> (c # l) # ls))"

text \<open>
  The number of matches a global scan for a literal pattern finds: \<open>s.match(/pat/g)\<close>
  counted with \<open>(... || "").length\<close>, and likewise \<open>s.split(pat).length - 1\<close> for a pattern
  that is not empty.  After a match the scan goes on behind it, and behind the next
  character when the match was empty.
\<close>

fun count_matches :: "string \<Rightarrow> string \<Rightarrow> nat" where
  "count_matches pat [] = (if pat = [] then 1 else 0)"
| "count_matches pat (c # cs) =
     (if prefix pat (c # cs) then Suc (count_matches pat (drop (length pat - 1) cs))
      else count_matches pat cs)"

text \<open>
  The first loop over \<open>lines\<close>.  Its guard
  \<^verbatim>\<open>if(!lines[i].length || !(lines[i].length == 1 && lines[i] == "\r")) continue;\<close>
  lets through only a line that consists of one carriage return.  Such a line becomes
  one \<open>TAB\<close> per match of \<^verbatim>\<open>((&nbsp;){tabSize})\<close> anywhere in the line before it, which is
  the line as this loop left it, or the empty text before the first line.
\<close>

fun infer_blank_lines :: "nat \<Rightarrow> string \<Rightarrow> string list \<Rightarrow> string list" where
  "infer_blank_lines n prev [] = []"
| "infer_blank_lines n prev (l # ls) =
     (let l' = (if l = [] \<or> \<not> (length l = 1 \<and> l = [CR]) then l
                else concat (replicate (count_matches (TAB n) prev) (TAB n)))
      in l' # infer_blank_lines n l' ls)"

text \<open>
  The row of line \<open>i\<close> (counted from 0) before indent guides are added, from the template
  \<^verbatim>\<open><tr class="highlight-tr">${lineNumber}<td class="highlight-code"><pre class="highlight-pre" ${failed ? 'style="color: white;"' : ""}>${lines[i].replace(/\r/g, "") || "<br>"}</pre></td></tr>\<close>:
  the start of the row with the line number cell, if enabled, the opening \<open>pre\<close> tag, the
  content, and the end of the row.
\<close>

definition row_open :: "options \<Rightarrow> nat \<Rightarrow> string" where
  \<open>row_open opts i =
     ''<tr class="highlight-tr">''
     @ (if lineNumbers opts
        then ''<td class="highlight-line"><div class="highlight-div">'' @ show_nat (i + 1) @ ''</div></td>''
        else [])
     @ ''<td class="highlight-code">''\<close>

definition pre_open :: "bool \<Rightarrow> string" where
  \<open>pre_open failed =
     ''<pre class="highlight-pre" '' @ (if failed then ''style="color: white;"'' else []) @ ''>''\<close>

definition row_content :: "string \<Rightarrow> string" where
  "row_content line = (let content = filter (\<lambda>c. c \<noteq> CR) line in if content = [] then BR else content)"

definition row_close :: string where
  "row_close = ''</pre></td></tr>''"

definition code_row :: "options \<Rightarrow> bool \<Rightarrow> nat \<Rightarrow> string \<Rightarrow> string" where
  "code_row opts failed i line = row_open opts i @ pre_open failed @ row_content line @ row_close"

text \<open>The length of the longest run of \<open>&nbsp;\<close> at the start of the text.\<close>

fun leading_nbsp :: "string \<Rightarrow> nat" where
  "leading_nbsp (a # b # c # d # e # f # cs) =
     (if [a, b, c, d, e, f] = NBSP then Suc (leading_nbsp cs) else 0)"
| "leading_nbsp cs = 0"

text \<open>\<^verbatim>\<open>((?:&nbsp;)+|<br>)\<close> at the start of the text.\<close>

definition tabs_group :: "string \<Rightarrow> string option" where
  "tabs_group s =
     (if 0 < leading_nbsp s then Some (concat (replicate (leading_nbsp s) NBSP))
      else if prefix BR s then Some BR
      else None)"

text \<open>
  \<^verbatim>\<open>.*?\<close> followed by the closing text of the tag and the group above: the lazy quantifier
  stops at the first place from which the rest matches, and does not cross a line
  terminator.  The answer is \<open>(end of before, tabs)\<close>.
\<close>

fun lazy_until :: "string \<Rightarrow> string \<Rightarrow> (string \<times> string) option" where
  "lazy_until closing [] = None"
| "lazy_until closing (c # cs) =
     (case (if prefix closing (c # cs) then tabs_group (drop (length closing) (c # cs)) else None) of
        Some tabs \<Rightarrow> Some (closing, tabs)
      | None \<Rightarrow>
          if line_terminator c then None
          else map_option (\<lambda>(b, tabs). (c # b, tabs)) (lazy_until closing cs))"

text \<open>
  A match of \<^verbatim>\<open>/(<pre.*?>|<span style=".*?">)((?:&nbsp;)+|<br>)/\<close> at the start of the
  text: \<open>(before, tabs)\<close>.
\<close>

definition indent_match :: "string \<Rightarrow> (string \<times> string) option" where
  \<open>indent_match s =
     (if prefix ''<pre'' s then
        map_option (\<lambda>(b, tabs). (''<pre'' @ b, tabs)) (lazy_until ''>'' (drop 4 s))
      else if prefix ''<span style="'' s then
        map_option (\<lambda>(b, tabs). (''<span style="'' @ b, tabs)) (lazy_until ''">'' (drop 13 s))
      else None)\<close>

text \<open>
  \<open>s.repeat(len / tabSize)\<close> and \<open>s.repeat(len % tabSize)\<close>.  A count with a fraction is
  rounded down.  For \<open>tabSize = 0\<close> the quotient is \<open>NaN\<close> (read as 0) when \<open>len = 0\<close> and
  \<open>Infinity\<close> otherwise, for which \<open>repeat\<close> throws a \<open>RangeError\<close>; the remainder is \<open>NaN\<close>.
\<close>

definition repeat_quotient :: "string \<Rightarrow> nat \<Rightarrow> nat \<Rightarrow> error + string" where
  "repeat_quotient s len n =
     (if n = 0 then (if len = 0 then Inr [] else Inl RangeError)
      else Inr (concat (replicate (len div n) s)))"

definition repeat_remainder :: "string \<Rightarrow> nat \<Rightarrow> nat \<Rightarrow> string" where
  "repeat_remainder s len n = (if n = 0 then [] else concat (replicate (len mod n) s))"

text \<open>
  The callback of the guide replacement.  \<open>prev\<close> is \<open>lines[i - 1]\<close>, the row emitted for
  the line before (\<open>None\<close> for the first line, where it is undefined); it counts as true
  when it is a text that is not empty.
\<close>

definition indent_callback :: "nat \<Rightarrow> string option \<Rightarrow> string \<Rightarrow> string \<Rightarrow> error + string" where
  "indent_callback n prev bef tabs =
     (let isEmptyLine = (tabs = BR);
          len = (case prev of
                   Some row \<Rightarrow>
                     if isEmptyLine \<and> row \<noteq> [] then count_matches INDENT row * n
                     else count_matches NBSP tabs
                 | None \<Rightarrow> count_matches NBSP tabs)
      in case repeat_quotient (INDENT @ TAB n) len n of
           Inl e \<Rightarrow> Inl e
         | Inr indent \<Rightarrow>
             (let remain = repeat_remainder NBSP len n;
                  newLine = (if isEmptyLine \<and> len = 0 then BR else [])
              in Inr (bef @ indent @ remain @ newLine)))"

text \<open>\<open>row.replace(regex, callback)\<close> without the \<open>g\<close> flag: the first match only.\<close>

fun replace_indent :: "(string \<Rightarrow> string \<Rightarrow> error + string) \<Rightarrow> string \<Rightarrow> error + string" where
  "replace_indent cb [] = Inr []"
| "replace_indent cb (c # cs) =
     (case indent_match (c # cs) of
        Some (bef, tabs) \<Rightarrow>
          (case cb bef tabs of
             Inl e \<Rightarrow> Inl e
           | Inr r \<Rightarrow> Inr (r @ drop (length bef + length tabs) (c # cs)))
      | None \<Rightarrow>
          (case replace_indent cb cs of Inl e \<Rightarrow> Inl e | Inr r \<Rightarrow> Inr (c # r)))"

text \<open>One pass through the second loop over \<open>lines\<close>.\<close>

definition emit_row :: "options \<Rightarrow> bool \<Rightarrow> nat \<Rightarrow> string option \<Rightarrow> string \<Rightarrow> error + string" where
  "emit_row opts failed i prev line =
     (if indentLines opts
      then replace_indent (indent_callback (tabSize opts) prev) (code_row opts failed i line)
      else Inr (code_row opts failed i line))"

text \<open>
  The second loop.  It overwrites \<open>lines[i]\<close> with the row, so the next pass finds the
  row, not the line, at \<open>lines[i - 1]\<close>.
\<close>

fun emit_rows :: "options \<Rightarrow> bool \<Rightarrow> nat \<Rightarrow> string option \<Rightarrow> string list \<Rightarrow> error + string list" where
  "emit_rows opts failed i prev [] = Inr []"
| "emit_rows opts failed i prev (l # ls) =
     (case emit_row opts failed i prev l of
        Inl e \<Rightarrow> Inl e
      | Inr row \<Rightarrow>
          (case emit_rows opts failed (Suc i) (Some row) ls of
             Inl e \<Rightarrow> Inl e
           | Inr rows \<Rightarrow> Inr (row # rows)))"

text \<open>Everything between the \<open>try\<close> block and the template of the result.\<close>

definition reconstruct :: "options \<Rightarrow> bool \<Rightarrow> string \<Rightarrow> error + string list" where
  "reconstruct opts failed str =
     (let str1 = replace_char (CHR 0x09) (TAB (tabSize opts)) str;
          str2 = replace_double_space str1;
          lines1 = infer_blank_lines (tabSize opts) [] (split_lines str2);
          str3 = js_join [LF] lines1;
          lines2 = split_lines str3
      in emit_rows opts failed 0 None lines2)"

section \<open>Highlight\<close>

text \<open>The theme table \<open>HIGHLIGHTER\<close> and the custom property declarations made from it.\<close>

definition HIGHLIGHTER :: "(string \<times> string) list" where
  "HIGHLIGHTER =
     [(''COMMENT'', ''#888888''), (''REGEX'', ''#e46f6f''), (''NUMBER'', ''#c88dff''),
      (''STRING'', ''#ffe484''), (''TEMPLATE_CODE'', ''#71b0ff''), (''NAME'', ''#c0ff00''),
      (''DATA_TYPE'', ''#00ffc4''), (''IMPORT'', ''#ed0082''), (''CONTROL'', ''#ed0082''),
      (''CONSTANT'', ''#ff0073''), (''CONDITIONAL'', ''#ed0082''), (''FUNCTION'', ''#ff904d''),
      (''ARITHMETIC'', ''#ffffff''), (''STORAGE'', ''#5ea6e8''), (''KEYWORD'', ''#ed0082''),
      (''VARIABLE'', ''#b9e7ff''), (''ENUM'', ''#58c5d8''), (''INDENT'', ''#505050''),
      (''SELECTION'', ''#0089ac''), (''SELECTED_LINE'', ''#353535''),
      (''LINE_NUMBER'', ''#808080''), (''BACKGROUND'', ''#262626'')]"

definition color_declarations :: string where
  "color_declarations =
     concat (map (\<lambda>(key, value). ''--'' @ key @ '': '' @ value @ '';'' @ [LF]) HIGHLIGHTER)"

text \<open>
  The parts that fill the template of the returned markup: the attributes of the outer
  \<open>div\<close> (\<open>line-wrap\<close>, the \<open>--line-height\<close> and \<open>--font-size\<close> declarations in pixels, the
  colour declarations, the \<open>onmousedown\<close> slot), whether the \<open>style\<close> element is included,
  and the rows, which are joined without separator inside the \<open>table\<close> element.
\<close>

record markup =
  line_wrap :: bool
  line_height :: nat
  font_size :: nat
  declarations :: string
  selection_slot :: string
  style_element :: bool
  table_rows :: "string list"

text \<open>
  \<open>Highlight(str, options, onerror)\<close>.  \<open>has_onerror\<close> says whether a callback was passed;
  the result is the markup together with the calls made to that callback, or the
  exception that leaves the function.  The \<open>debug\<close> option only writes to the console.
\<close>

definition Highlight ::
  "regex_engine \<Rightarrow> string \<Rightarrow> HighlightOptions option \<Rightarrow> bool \<Rightarrow> error + markup \<times> (error \<times> string) list" where
  "Highlight engine str arg has_onerror =
     (let opts = resolve_options arg;
          originalString = str;
          escaped = escape str;
          (str1, failed, calls) =
            (case try_block engine escaped of
               Inr annotated \<Rightarrow> (annotated, False, [])
             | Inl e \<Rightarrow> (escaped, True, if has_onerror then [(e, originalString)] else []))
      in case reconstruct opts failed str1 of
           Inl e \<Rightarrow> Inl e
         | Inr rows \<Rightarrow>
             Inr (\<lparr>line_wrap = wrapLines opts,
                   line_height = lineHeight opts,
                   font_size = fontSize opts,
                   declarations = (if colorVariables opts then color_declarations else []),
                   selection_slot = selection_attribute js_handler opts,
                   style_element = style opts,
                   table_rows = rows\<rparr>, calls))"

text \<open>
  A category name that can stand inside the opening tag without ending it: no angle
  bracket, no double quote, no line terminator.
\<close>

definition clean_color :: "string \<Rightarrow> bool" where
  \<open>clean_color c = (\<forall>x\<in>set c. x \<notin> set ''<>"'' \<and> \<not> line_terminator x)\<close>

text \<open>
  A text inside which no match of the guide expression can begin, whatever follows it:
  every \<open><\<close> in it is followed, within the text, by a character other than \<open>p\<close> and \<open>s\<close>.
\<close>

fun safe_prefix :: "string \<Rightarrow> bool" where
  "safe_prefix [] = True"
| "safe_prefix [c] = (c \<noteq> CHR ''<'')"
| "safe_prefix (c # d # cs) =
     ((c \<noteq> CHR ''<'' \<or> (d \<noteq> CHR ''p'' \<and> d \<noteq> CHR ''s'')) \<and> safe_prefix (d # cs))"

section \<open>Reading the inserted tags back\<close>

text \<open>
  The length of a whole tag at the start of the text, or 0 when there is none: the
  closing tag \<^verbatim>\<open></span>\<close>, or an opening tag \<^verbatim>\<open><span style="color: var(--CATEGORY)">\<close>.
\<close>

definition tag_length :: "string \<Rightarrow> nat" where
  \<open>tag_length s =
     (if prefix ''</span>'' s then 7
      else if prefix ''<span style="'' s then
        (let inner = takeWhile (\<lambda>x. x \<noteq> CHR 0x22) (drop 13 s)
         in if prefix ''color: var(--'' inner \<and> suffix '')'' inner
               \<and> prefix ''">'' (drop (13 + length inner) s)
            then 13 + length inner + 2 else 0)
      else 0)\<close>

text \<open>
  Deleting every such tag.  The first argument counts the characters of the current tag
  that are still to be dropped.
\<close>

fun strip_from :: "nat \<Rightarrow> string \<Rightarrow> string" where
  "strip_from k [] = []"
| "strip_from (Suc k) (c # cs) = strip_from k cs"
| "strip_from 0 (c # cs) =
     (case tag_length (c # cs) of
        0 \<Rightarrow> c # strip_from 0 cs
      | Suc n \<Rightarrow> strip_from n cs)"

definition strip_tags :: "string \<Rightarrow> string" where
  "strip_tags s = strip_from 0 s"

text \<open>A span that lies within a text of length \<open>n\<close>: \<open>start \<le> end \<le> n\<close>, the end a number.\<close>

definition span_within :: "nat \<Rightarrow> span \<Rightarrow> bool" where
  "span_within n p =
     (case span_end p of
        Num e \<Rightarrow> int (span_start p) \<le> e \<and> e \<le> int n
      | NaN \<Rightarrow> False)"

text \<open>The end of a span as an offset into the text.\<close>

definition end_offset :: "span \<Rightarrow> nat" where
  "end_offset p = (case span_end p of Num e \<Rightarrow> nat e | NaN \<Rightarrow> 0)"

text \<open>
  Spans that follow one another from offset \<open>e\<close> on within a text of length \<open>n\<close>: each
  starts at or behind the end of the one before.
\<close>

fun chain :: "nat \<Rightarrow> nat \<Rightarrow> span list \<Rightarrow> bool" where
  "chain n e [] = True"
| "chain n e (p # ps) = (e \<le> span_start p \<and> span_within n p \<and> chain n (end_offset p) ps)"

text \<open>
  The text from offset \<open>e\<close> on, rebuilt in one pass with every span of the chain put
  between its tags; \<open>wrap\<close> says how one span is written.
\<close>

fun render :: "(string \<Rightarrow> string \<Rightarrow> string) \<Rightarrow> nat \<Rightarrow> span list \<Rightarrow> string \<Rightarrow> string" where
  "render wrap e [] str = drop e str"
| "render wrap e (p # ps) str =
     take (span_start p - e) (drop e str)
     @ wrap (span_color p) (take (end_offset p - span_start p) (drop (span_start p) str))
     @ render wrap (end_offset p) ps str"

definition plain_span :: "string \<Rightarrow> string \<Rightarrow> string" where
  "plain_span color body = open_tag color @ body @ close_tag"

text \<open>
  A text the expression \<^verbatim>\<open>(?:.|\r\n)*\<close> matches as a whole: every line terminator in it is
  a carriage return followed by a line feed.
\<close>

fun units_ok :: "string \<Rightarrow> bool" where
  "units_ok [] = True"
| "units_ok (c # cs) =
     (if \<not> line_terminator c then units_ok cs
      else if c = CR \<and> prefix [LF] cs then units_ok (tl cs)
      else False)"

definition closed_span :: "string \<Rightarrow> string \<Rightarrow> string" where
  "closed_span color body =
     (if units_ok body then reopen_span (open_tag color) body close_tag
      else plain_span color body)"

text \<open>
  What the scanner needs from the runtime so that every span lies within the text: each
  match lies within the subject, has a first capture group, and that group, when it took
  part, is text of the match.
\<close>

definition sound_match :: "string \<Rightarrow> regex_match \<Rightarrow> bool" where
  "sound_match str m =
     (m_offset m + length (m_text m) \<le> length str \<and>
      (case m_groups m of
         [] \<Rightarrow> False
       | g # _ \<Rightarrow> (case g of None \<Rightarrow> True | Some t \<Rightarrow> sublist t (m_text m))))"


section \<open>Reading the categories back\<close>

text \<open>The category named by the opening tag that stands at the start of the text.\<close>

definition tag_category :: "string \<Rightarrow> string" where
  "tag_category s = take (tag_length s - 29) (drop 26 s)"

text \<open>
  The category in which character \<open>k\<close> of the text (counted from 0, tags not counted)
  is shown, reading the annotated text from the left.  Whole tags are passed over; the
  first argument counts the characters of the current tag that are still to pass.  An
  opening tag sets the category, the closing tag ends it.  The answer is \<open>None\<close> for a
  character that stands outside every span.
\<close>

fun color_from :: "nat \<Rightarrow> string option \<Rightarrow> nat \<Rightarrow> string \<Rightarrow> string option" where
  "color_from n cur k [] = None"
| "color_from (Suc n) cur k (c # cs) = color_from n cur k cs"
| "color_from 0 cur k (c # cs) =
     (case tag_length (c # cs) of
        0 \<Rightarrow> (case k of 0 \<Rightarrow> cur | Suc j \<Rightarrow> color_from 0 cur j cs)
      | Suc n \<Rightarrow>
          color_from n (if prefix close_tag (c # cs) then None else Some (tag_category (c # cs))) k cs)"

definition color_at :: "string \<Rightarrow> nat \<Rightarrow> string option" where
  "color_at s k = color_from 0 None k s"

section \<open>The state behind the \<open>try\<close> statement\<close>




section \<open>Sample answers of the regular expression runtime\<close>

text \<open>
  What \<open>str.replace(new RegExp(regex, "gm"), callback)\<close> reports to the callback for a few
  subjects: for each subject the rules of the table (by position, counted from 0) whose
  expression matches in it, each with its matches in scan order (matched text, capture
  groups, offset).  The rules not listed find nothing in that subject.
\<close>

definition sample_matches :: "(string \<times> (nat \<times> regex_match list) list) list" where
  "sample_matches =
   [(''x = 12;'',
       [(2, [\<lparr>m_text = '' 12'', m_groups = [Some ''12''], m_offset = 3\<rparr>]),
        (21, [\<lparr>m_text = ''='', m_groups = [Some ''=''], m_offset = 2\<rparr>,
              \<lparr>m_text = '';'', m_groups = [Some '';''], m_offset = 6\<rparr>])]),
    (''String(x)'',
       [(10, [\<lparr>m_text = ''String'', m_groups = [Some ''String''], m_offset = 0\<rparr>]),
        (18, [\<lparr>m_text = ''String('', m_groups = [Some ''String''], m_offset = 0\<rparr>]),
        (21, [\<lparr>m_text = ''('', m_groups = [Some ''(''], m_offset = 6\<rparr>,
              \<lparr>m_text = '')'', m_groups = [Some '')''], m_offset = 8\<rparr>])]),
    (''// String(x)'',
       [(0, [\<lparr>m_text = ''// String(x)'', m_groups = [Some ''// String(x)''], m_offset = 0\<rparr>]),
        (10, [\<lparr>m_text = '' String'', m_groups = [Some ''String''], m_offset = 2\<rparr>]),
        (18, [\<lparr>m_text = ''String('', m_groups = [Some ''String''], m_offset = 3\<rparr>]),
        (21, [\<lparr>m_text = ''/'', m_groups = [Some ''/''], m_offset = 0\<rparr>,
              \<lparr>m_text = ''/'', m_groups = [Some ''/''], m_offset = 1\<rparr>,
              \<lparr>m_text = ''('', m_groups = [Some ''(''], m_offset = 9\<rparr>,
              \<lparr>m_text = '')'', m_groups = [Some '')''], m_offset = 11\<rparr>])]),
    ([CHR 0x09] @ ''return;'' @ [CHR 0x0A, CHR 0x0A] @ ''x'',
       [(13, [\<lparr>m_text = [CHR 0x09] @ ''return'', m_groups = [Some ''return''], m_offset = 0\<rparr>]),
        (21, [\<lparr>m_text = '';'', m_groups = [Some '';''], m_offset = 7\<rparr>])]),
    ([CHR 0x09] @ ''// c'' @ [CHR 0x0A, CHR 0x0A] @ ''x'',
       [(0, [\<lparr>m_text = ''// c'' @ [CHR 0x0A], m_groups = [Some (''// c'' @ [CHR 0x0A])], m_offset = 1\<rparr>]),
        (21, [\<lparr>m_text = ''/'', m_groups = [Some ''/''], m_offset = 1\<rparr>,
              \<lparr>m_text = ''/'', m_groups = [Some ''/''], m_offset = 2\<rparr>])]),
    (''x =    y'' @ [CHR 0x0A, CHR 0x0A] @ ''z'',
       [(21, [\<lparr>m_text = ''='', m_groups = [Some ''=''], m_offset = 2\<rparr>])]),
    (''a'' @ [CHR 0x09] @ ''b'' @ [CHR 0x0D, CHR 0x0A, CHR 0x0D, CHR 0x0A] @ ''c'',
       []),
    ([CHR 0x09] @ ''x'' @ [CHR 0x0A, CHR 0x0A] @ ''y'',
       [])]"

text \<open>
  A runtime that answers for the subjects above as listed, and that finds no match in
  any other subject.
\<close>

definition sample_engine :: regex_engine where
  "sample_engine pat subject =
     Inr (concat (map snd (filter (\<lambda>rule. fst (Colors ! fst rule) = pat)
            (case map_of sample_matches subject of None \<Rightarrow> [] | Some rules \<Rightarrow> rules))))"

section \<open>Escaping is idempotent\<close>

lemma replace_char_absent:
  "c \<notin> set s \<Longrightarrow> replace_char c r s = s"
  by (induction s) (auto simp: replace_char_def)

lemma set_replace_char:
  "set (replace_char c r s) \<subseteq> (set s - {c}) \<union> set r"
  by (induction s) (auto simp: replace_char_def)

lemma escape_no_angle:
  "CHR ''<'' \<notin> set (escape s) \<and> CHR ''>'' \<notin> set (escape s)"
proof -
  let ?t = "replace_char CHR ''>'' ''&gt;'' s"
  have a: "CHR ''>'' \<notin> set ?t"
    using set_replace_char [of "CHR ''>''" "''&gt;''" s] by auto
  have b: "set (escape s) \<subseteq> (set ?t - {CHR ''<''}) \<union> set ''&lt;''"
    unfolding escape_def by (rule set_replace_char)
  from a b show ?thesis by auto
qed

lemma escape_fixed:
  "CHR ''<'' \<notin> set s \<Longrightarrow> CHR ''>'' \<notin> set s \<Longrightarrow> escape s = s"
  by (simp add: escape_def replace_char_absent)

text \<open>
  C7.  Escaping is idempotent: running the two replacements on text that has already been
  escaped changes nothing, \<open>escape (escape s) = escape s\<close> for every string \<open>s\<close>.
\<close>

theorem escape_idempotent: "escape (escape s) = escape s"
  using escape_no_angle [of s] by (simp add: escape_fixed)

section \<open>The scanner emits one span per match\<close>

lemma prefix_take_eq: "prefix g s \<longleftrightarrow> take (length g) s = g"
  by (metis prefix_def append_eq_conv_conj take_is_prefix)

lemma index_of_first_offset:
  "index_of g s = Some k \<longleftrightarrow> first_offset g s k"
proof (induction s arbitrary: k)
  case Nil
  then show ?case by (auto simp: first_offset_def)
next
  case (Cons c cs)
  show ?case
  proof (cases "prefix g (c # cs)")
    case True
    then have t: "take (length g) (c # cs) = g" by (simp add: prefix_take_eq)
    have l: "length g \<le> length (c # cs)" using True by (rule prefix_length_le)
    show ?thesis
    proof
      assume "index_of g (c # cs) = Some k"
      then have "k = 0" using True by simp
      then show "first_offset g (c # cs) k" using t l by (simp add: first_offset_def)
    next
      assume f: "first_offset g (c # cs) k"
      have "k = 0"
      proof (rule ccontr)
        assume "k \<noteq> 0"
        then have "0 < k" by simp
        with f have "take (length g) (drop 0 (c # cs)) \<noteq> g" unfolding first_offset_def by blast
        with t show False by simp
      qed
      then show "index_of g (c # cs) = Some k" using True by simp
    qed
  next
    case False
    then have nt: "take (length g) (c # cs) \<noteq> g" by (simp add: prefix_take_eq)
    show ?thesis
    proof
      assume "index_of g (c # cs) = Some k"
      then obtain k' where k': "index_of g cs = Some k'" "k = Suc k'" using False by auto
      then have f: "first_offset g cs k'" using Cons.IH by simp
      have "\<forall>j<Suc k'. take (length g) (drop j (c # cs)) \<noteq> g"
      proof (intro allI impI)
        fix j assume "j < Suc k'"
        show "take (length g) (drop j (c # cs)) \<noteq> g"
        proof (cases j)
          case 0 then show ?thesis using nt by simp
        next
          case (Suc i)
          then have "i < k'" using \<open>j < Suc k'\<close> by simp
          then show ?thesis using f Suc unfolding first_offset_def by simp
        qed
      qed
      then show "first_offset g (c # cs) k" using f k' unfolding first_offset_def by simp
    next
      assume f: "first_offset g (c # cs) k"
      have "k \<noteq> 0" using f nt unfolding first_offset_def by (cases k) auto
      then obtain k' where k: "k = Suc k'" by (cases k) auto
      have "first_offset g cs k'"
        unfolding first_offset_def
      proof (intro conjI allI impI)
        show "k' + length g \<le> length cs" using f k unfolding first_offset_def by simp
        show "take (length g) (drop k' cs) = g" using f k unfolding first_offset_def by simp
        fix j assume "j < k'"
        then have "Suc j < k" using k by simp
        with f have "take (length g) (drop (Suc j) (c # cs)) \<noteq> g" unfolding first_offset_def by blast
        then show "take (length g) (drop j cs) \<noteq> g" by simp
      qed
      then have "index_of g cs = Some k'" using Cons.IH by simp
      then show "index_of g (c # cs) = Some k" using False k by simp
    qed
  qed
qed

lemma sublist_index_of: "sublist g s \<Longrightarrow> \<exists>k. index_of g s = Some k"
proof (induction s)
  case Nil then show ?case by simp
next
  case (Cons c cs)
  then show ?case by (cases "prefix g (c # cs)") (auto simp: sublist_Cons_right)
qed

lemma collect_spans_map:
  "\<forall>m\<in>set ms. f m = Inr (h m) \<Longrightarrow> collect_spans f ms = Inr (map h ms)"
  by (induction ms) auto

lemma js_nth_capture:
  "i < length (m_groups m) \<Longrightarrow> m_groups m ! i = Some g \<Longrightarrow> js_nth (callback_groups m str) i = JStr g"
  by (simp add: js_nth_def callback_groups_def nth_append)

lemma span_of_match_capture:
  assumes "i < length (m_groups m)" and "m_groups m ! i = Some g" and "index_of g (m_text m) = Some k"
  shows "span_of_match i color str m = Inr (m_offset m + k, color, Num (int (m_offset m + k + length g)))"
proof -
  have "first_offset g (m_text m) k" using assms(3) by (simp add: index_of_first_offset)
  then have "k \<le> length (m_text m)" by (simp add: first_offset_def)
  then show ?thesis
    using assms by (simp add: span_of_match_def js_nth_capture Let_def min_def)
qed

lemma Colors_plain_keys:
  "\<forall>key\<in>set (map fst Colors). rule_index key = 0 \<and> rule_regex key = key"
  by code_simp

lemma Colors_categories:
  "\<forall>rule\<in>set Colors. rule_color Colors (fst rule) = snd rule"
  by code_simp

lemma rule_id_suffix: "is_digit d \<Longrightarrow> rule_id (pat @ ''==>'' @ [d]) = Some d"
  by (simp add: rule_id_def is_digit_def Let_def)

lemma rule_suffix:
  assumes "is_digit d"
  shows "rule_index (pat @ ''==>'' @ [d]) = of_char d - 48 \<and>
         rule_regex (pat @ ''==>'' @ [d]) = pat \<and>
         rule_color table (pat @ ''==>'' @ [d])
           = (case map_of table (pat @ ''==>'' @ [d]) of None \<Rightarrow> ''undefined'' | Some c \<Rightarrow> c)"
proof -
  have d: "dropWhile is_digit (rev (pat @ ''==>'' @ [d])) = ''>=='' @ rev pat"
    using assms by (simp add: is_digit_def)
  show ?thesis
    using rule_id_suffix [OF assms, of pat] d
    by (simp add: rule_index_def rule_regex_def rule_color_def)
qed

text \<open>
  C6 (amended).  Scanner span emission.  For every rule (table key) whose compiled
  expression yields the matches \<open>ms\<close> on the subject, where the capture group the rule
  designates took part in each match and its text lies within the matched text, the
  scanner emits exactly one span per match, in match order (none when \<open>ms = []\<close>):
  \<open>(start, category, start + length of the group)\<close>.  The text that is coloured is the
  designated capture group \<open>groups[index]\<close>, never the outer match: \<open>index\<close> is \<open>0\<close>, which
  is the first capture group, unless the key ends in \<open>==>\<close> and a digit \<open>d\<close>, and then
  it is \<open>d\<close>, the expression is the key without that suffix and the category is looked
  up under the whole key.  \<open>start\<close> is the offset of the match plus the offset of the
  first occurrence of the group's text within the matched text.  Every key of the table
  of the program carries no suffix, so it designates the first capture group, and it is
  coloured with the category written next to it in the table.
\<close>

theorem scanner_span_emission:
  assumes eng: "engine (rule_regex key) str = Inr ms"
      and grp: "\<forall>m\<in>set ms. rule_index key < length (m_groups m) \<and>
                  (\<exists>g. m_groups m ! rule_index key = Some g \<and> sublist g (m_text m))"
  shows "\<exists>spans. scan_rule table engine str key = Inr spans \<and> length spans = length ms \<and>
           (\<forall>i<length ms. \<exists>g k.
               m_groups (ms ! i) ! rule_index key = Some g \<and>
               first_offset g (m_text (ms ! i)) k \<and>
               spans ! i = (m_offset (ms ! i) + k, rule_color table key,
                            Num (int (m_offset (ms ! i) + k + length g)))) \<and>
           (\<forall>key'\<in>set (map fst Colors). rule_index key' = 0 \<and> rule_regex key' = key') \<and>
           (\<forall>rule\<in>set Colors. rule_color Colors (fst rule) = snd rule) \<and>
           (\<forall>pat d. is_digit d \<longrightarrow>
               rule_index (pat @ ''==>'' @ [d]) = of_char d - 48 \<and>
               rule_regex (pat @ ''==>'' @ [d]) = pat \<and>
               rule_color table (pat @ ''==>'' @ [d])
                 = (case map_of table (pat @ ''==>'' @ [d]) of None \<Rightarrow> ''undefined'' | Some c \<Rightarrow> c))"
proof -
  define h where "h = (\<lambda>m::regex_match. let g = the (m_groups m ! rule_index key); k = the (index_of g (m_text m))
                        in (m_offset m + k, rule_color table key, Num (int (m_offset m + k + length g))))"
  have each: "span_of_match (rule_index key) (rule_color table key) str m = Inr (h m)
              \<and> (\<exists>g k. m_groups m ! rule_index key = Some g \<and> first_offset g (m_text m) k \<and>
                    h m = (m_offset m + k, rule_color table key, Num (int (m_offset m + k + length g))))"
    if "m \<in> set ms" for m :: regex_match
  proof -
    from grp that obtain g where g: "rule_index key < length (m_groups m)"
      "m_groups m ! rule_index key = Some g" "sublist g (m_text m)" by blast
    then obtain k where k: "index_of g (m_text m) = Some k" using sublist_index_of by blast
    have hm: "h m = (m_offset m + k, rule_color table key, Num (int (m_offset m + k + length g)))"
      using g k by (simp add: h_def)
    have "span_of_match (rule_index key) (rule_color table key) str m = Inr (h m)"
      using span_of_match_capture [OF g(1) g(2) k] hm by simp
    moreover have "first_offset g (m_text m) k" using k by (simp add: index_of_first_offset)
    ultimately show ?thesis using g hm by blast
  qed
  then have "collect_spans (span_of_match (rule_index key) (rule_color table key) str) ms = Inr (map h ms)"
    by (intro collect_spans_map) blast
  then have r: "scan_rule table engine str key = Inr (map h ms)"
    using eng by (simp add: scan_rule_def)
  have "\<forall>i<length ms. \<exists>g k. m_groups (ms ! i) ! rule_index key = Some g \<and>
               first_offset g (m_text (ms ! i)) k \<and>
               map h ms ! i = (m_offset (ms ! i) + k, rule_color table key,
                            Num (int (m_offset (ms ! i) + k + length g)))"
    using each by (auto simp: )
  with r Colors_plain_keys Colors_categories rule_suffix [of _ _ table] show ?thesis by simp
qed

theorem scanner_span_emission_witness:
  "\<exists>spans. scan_rule Colors sample_engine ''x = 12;'' (fst (Colors ! 2)) = Inr spans \<and>
     length spans = 1 \<and>
     (\<exists>k. first_offset ''12'' '' 12'' k \<and> spans ! 0 = (3 + k, ''NUMBER'', Num (int (3 + k + 2))))"
proof -
  let ?key = "fst (Colors ! 2)"
  let ?ms = "[\<lparr>m_text = '' 12'', m_groups = [Some ''12''], m_offset = 3\<rparr>]"
  have e: "sample_engine (rule_regex ?key) ''x = 12;'' = Inr ?ms" by code_simp
  have i: "rule_index ?key = 0" by code_simp
  have c: "rule_color Colors ?key = ''NUMBER''" by code_simp
  have g: "\<forall>m\<in>set ?ms. rule_index ?key < length (m_groups m) \<and>
              (\<exists>g. m_groups m ! rule_index ?key = Some g \<and> sublist g (m_text m))"
    unfolding i by (simp add: sublist_Cons_right)
  from e g scanner_span_emission [of sample_engine ?key "''x = 12;''" ?ms Colors] obtain spans where
    s: "scan_rule Colors sample_engine ''x = 12;'' ?key = Inr spans" "length spans = length ?ms"
       "\<forall>i<length ?ms. \<exists>g k.
               m_groups (?ms ! i) ! rule_index ?key = Some g \<and>
               first_offset g (m_text (?ms ! i)) k \<and>
               spans ! i = (m_offset (?ms ! i) + k, rule_color Colors ?key,
                            Num (int (m_offset (?ms ! i) + k + length g)))"
    by blast
  from s(3) have "\<exists>k. first_offset ''12'' '' 12'' k \<and> spans ! 0 = (3 + k, ''NUMBER'', Num (int (3 + k + 2)))"
    unfolding i c by simp
  then show ?thesis using s(1,2) by simp
qed

text \<open>
  C6 as stated fails.  In \<open>x = 12;\<close> the \<open>NUMBER\<close> rule, which designates no group of its
  own, matches the text \<open> 12\<close> at offset 3.  The span emitted covers the offsets 4 to 6,
  the first capture group \<open>12\<close>, and not the offsets 3 to 6 of the outer match.
\<close>

theorem scanner_span_emission_counterexample:
  "sample_engine (rule_regex (fst (Colors ! 2))) ''x = 12;''
     = Inr [\<lparr>m_text = '' 12'', m_groups = [Some ''12''], m_offset = 3\<rparr>] \<and>
   scan_rule Colors sample_engine ''x = 12;'' (fst (Colors ! 2)) = Inr [(4, ''NUMBER'', Num 6)] \<and>
   scan_rule Colors sample_engine ''x = 12;'' (fst (Colors ! 2)) \<noteq> Inr [(3, ''NUMBER'', Num 6)]"
  by code_simp

section \<open>Accepted spans do not overlap\<close>

lemma accepted_subset: "set (accepted E ps) \<subseteq> set ps"
  by (induction ps arbitrary: E) auto

lemma not_js_less_ge: "E \<noteq> NaN \<Longrightarrow> \<not> js_less a E \<Longrightarrow> js_ge a E"
  by (cases E) auto

lemma js_ge_mono: "js_ge a E \<Longrightarrow> a \<le> b \<Longrightarrow> js_ge b E"
  by (cases E) auto

lemma accepted_starts_ge:
  assumes "E \<noteq> NaN" and "\<forall>p\<in>set ps. numeric_end p" and "sorted (map span_start ps)"
    and "a \<in> set (accepted E ps)"
  shows "js_ge (int (span_start a)) E"
  using assms
proof (induction ps arbitrary: E)
  case Nil
  then show ?case by simp
next
  case (Cons p ps)
  show ?case
  proof (cases "js_less (int (span_start p)) E")
    case True
    then show ?thesis using Cons by simp
  next
    case False
    then have hd: "js_ge (int (span_start p)) E" using Cons.prems(1) by (rule not_js_less_ge [rotated])
    from False Cons.prems(4) have "a = p \<or> a \<in> set (accepted (span_end p) ps)" by simp
    then show ?thesis
    proof
      assume "a = p" then show ?thesis using hd by simp
    next
      assume "a \<in> set (accepted (span_end p) ps)"
      then have "a \<in> set ps" using accepted_subset by blast
      then have "span_start p \<le> span_start a" using Cons.prems(3) by auto
      then show ?thesis using hd js_ge_mono by simp
    qed
  qed
qed

lemma accepted_sorted_wrt:
  assumes "\<forall>p\<in>set ps. numeric_end p" and "sorted (map span_start ps)"
  shows "sorted_wrt (\<lambda>a b. span_start a \<le> span_start b \<and> js_ge (int (span_start b)) (span_end a))
           (accepted E ps)"
  using assms
proof (induction ps arbitrary: E)
  case Nil
  then show ?case by simp
next
  case (Cons p ps)
  have ih: "sorted_wrt (\<lambda>a b. span_start a \<le> span_start b \<and> js_ge (int (span_start b)) (span_end a))
           (accepted E' ps)" for E'
    using Cons by simp
  show ?case
  proof (cases "js_less (int (span_start p)) E")
    case True
    then show ?thesis using ih by simp
  next
    case False
    have ne: "span_end p \<noteq> NaN" using Cons.prems(1) by (simp add: numeric_end_def)
    have "span_start p \<le> span_start y \<and> js_ge (int (span_start y)) (span_end p)"
      if "y \<in> set (accepted (span_end p) ps)" for y
    proof
      from that have "y \<in> set ps" using accepted_subset by blast
      then show "span_start p \<le> span_start y" using Cons.prems(2) by auto
      show "js_ge (int (span_start y)) (span_end p)"
        using accepted_starts_ge [OF ne _ _ that] Cons.prems by simp
    qed
    then show ?thesis using False ih by simp
  qed
qed

lemma wrap_span_skip:
  "js_less (int (span_start p)) (c_End st) \<Longrightarrow> wrap_span p st = st"
  by (simp add: wrap_span_def)

lemma wrap_span_End:
  "\<not> js_less (int (span_start p)) (c_End st) \<Longrightarrow> c_End (wrap_span p st) = span_end p"
  by (simp add: wrap_span_def Let_def)

lemma fold_wrap_accepted:
  "fold wrap_span ps st = fold wrap_span (accepted (c_End st) ps) st"
proof (induction ps arbitrary: st)
  case Nil
  then show ?case by simp
next
  case (Cons p ps)
  show ?case
  proof (cases "js_less (int (span_start p)) (c_End st)")
    case True
    then show ?thesis using Cons [of st] by (simp add: wrap_span_skip)
  next
    case False
    then show ?thesis using Cons [of "wrap_span p st"] by (simp add: wrap_span_End)
  qed
qed

lemma sorted_sort_positions: "sorted (map span_start (sort_positions ps))"
  by (simp add: sort_positions_def)

lemma set_sort_positions: "set (sort_positions ps) = set ps"
  by (simp add: sort_positions_def)

text \<open>
  C1.  Span non-overlap after composition.  For every list of candidate spans whose ends
  are numbers (the scanner of the program produces no other, see \<open>scan_numeric_ends\<close>
  below), any two accepted spans \<open>s1\<close>, \<open>s2\<close> with \<open>s1.start < s2.start\<close> satisfy
  \<open>s2.start \<ge> s1.end\<close>.  A candidate whose start is strictly below \<open>End\<close>, the end of the
  span accepted last, leaves the text, the running offset and \<open>End\<close> as they are, and the
  composed text is the result of wrapping the accepted spans alone.
\<close>

theorem span_non_overlap:
  assumes "\<forall>p\<in>set positions. numeric_end p"
  shows "(\<forall>s1\<in>set (accepted_spans positions). \<forall>s2\<in>set (accepted_spans positions).
            span_start s1 < span_start s2 \<longrightarrow> js_ge (int (span_start s2)) (span_end s1)) \<and>
         (\<forall>(st::compositor) p. js_less (int (span_start p)) (c_End st) \<longrightarrow> wrap_span p st = st) \<and>
         compose positions str = fold wrap_span (accepted_spans positions) (compositor_init str)"
proof (intro conjI ballI impI allI)
  let ?R = "\<lambda>a b. span_start a \<le> span_start b \<and> js_ge (int (span_start b)) (span_end a)"
  have sw: "sorted_wrt ?R (accepted_spans positions)"
    unfolding accepted_spans_def
    by (rule accepted_sorted_wrt) (use assms in \<open>simp_all add: set_sort_positions sorted_sort_positions\<close>)
  fix s1 s2
  assume s1: "s1 \<in> set (accepted_spans positions)" and s2: "s2 \<in> set (accepted_spans positions)"
    and lt: "span_start s1 < span_start s2"
  from s1 obtain i where i: "i < length (accepted_spans positions)" "accepted_spans positions ! i = s1"
    by (auto simp: in_set_conv_nth)
  from s2 obtain j where j: "j < length (accepted_spans positions)" "accepted_spans positions ! j = s2"
    by (auto simp: in_set_conv_nth)
  have "i \<noteq> j" using i j lt by auto
  moreover have "\<not> j < i"
  proof
    assume "j < i"
    then have "?R s2 s1" using sw i j by (auto simp: sorted_wrt_iff_nth_less)
    then show False using lt by simp
  qed
  ultimately have "i < j" by simp
  then have "?R s1 s2" using sw i j by (auto simp: sorted_wrt_iff_nth_less)
  then show "js_ge (int (span_start s2)) (span_end s1)" by simp
next
  fix st :: compositor and p assume "js_less (int (span_start p)) (c_End st)"
  then show "wrap_span p st = st" by (rule wrap_span_skip)
next
  show "compose positions str = fold wrap_span (accepted_spans positions) (compositor_init str)"
    unfolding compose_def accepted_spans_def
    using fold_wrap_accepted [of "sort_positions positions" "compositor_init str"]
    by (simp add: compositor_init_def)
qed

theorem span_non_overlap_witness:
  "accepted_spans [(4, ''NUMBER'', Num 6), (0, ''STORAGE'', Num 3), (2, ''FUNCTION'', Num 5)]
     = [(0, ''STORAGE'', Num 3), (4, ''NUMBER'', Num 6)] \<and>
   js_ge 4 (Num 3) \<and>
   c_str (compose [(4, ''NUMBER'', Num 6), (0, ''STORAGE'', Num 3), (2, ''FUNCTION'', Num 5)] ''let 12'')
     = c_str (fold wrap_span [(0, ''STORAGE'', Num 3), (4, ''NUMBER'', Num 6)] (compositor_init ''let 12''))"
  using span_non_overlap [of "[(4, ''NUMBER'', Num 6), (0, ''STORAGE'', Num 3), (2, ''FUNCTION'', Num 5)]" "''let 12''"]
  by (simp add: numeric_end_def span_end_def span_start_def accepted_spans_def sort_positions_def)

text \<open>
  The scanner of the program only produces numeric ends, provided every match the
  runtime reports carries at least one capture group (each pattern of the table has one).
\<close>

lemma collect_spans_all:
  assumes "collect_spans f ms = Inr ps" and "\<forall>m\<in>set ms. \<forall>p. f m = Inr p \<longrightarrow> P p"
  shows "\<forall>p\<in>set ps. P p"
  using assms
proof (induction ms arbitrary: ps)
  case Nil
  then show ?case by simp
next
  case (Cons m ms)
  from Cons.prems(1) obtain q qs where q: "f m = Inr q" "collect_spans f ms = Inr qs" "ps = q # qs"
    by (auto split: sum.splits)
  have "P q" using Cons.prems(2) q(1) by (metis list.set_intros(1))
  moreover have "\<forall>p\<in>set qs. P p" using Cons.prems(2) by (intro Cons.IH [OF q(2)]) (metis list.set_intros(2))
  ultimately show ?case using q(3) by simp
qed

lemma span_of_match_first_group_numeric:
  "span_of_match 0 color str m = Inr p \<Longrightarrow> m_groups m \<noteq> [] \<Longrightarrow> numeric_end p"
  by (cases "m_groups m")
     (auto simp: span_of_match_def js_nth_def callback_groups_def numeric_end_def span_end_def Let_def
           split: option.splits)

lemma scan_rules_numeric_ends:
  assumes "scan_rules table engine str keys = Inr ps"
    and "\<forall>key\<in>set keys. rule_index key = 0"
    and "\<And>pat ms m. engine pat str = Inr ms \<Longrightarrow> m \<in> set ms \<Longrightarrow> m_groups m \<noteq> []"
  shows "\<forall>p\<in>set ps. numeric_end p"
  using assms(1,2)
proof (induction keys arbitrary: ps)
  case Nil
  then show ?case by simp
next
  case (Cons key keys)
  from Cons.prems(1) obtain qs rs where
    q: "scan_rule table engine str key = Inr qs" and
    r: "scan_rules table engine str keys = Inr rs" and ps: "ps = qs @ rs"
    by (auto split: sum.splits)
  from q obtain ms where ms: "engine (rule_regex key) str = Inr ms"
    and c: "collect_spans (span_of_match (rule_index key) (rule_color table key) str) ms = Inr qs"
    by (auto simp: scan_rule_def split: sum.splits)
  have k0: "rule_index key = 0" using Cons.prems(2) by simp
  have "\<forall>p\<in>set qs. numeric_end p"
    using c unfolding k0
    by (rule collect_spans_all) (use assms(3) [OF ms] in \<open>blast intro: span_of_match_first_group_numeric\<close>)
  moreover have "\<forall>p\<in>set rs. numeric_end p" using Cons.IH [OF r] Cons.prems(2) by simp
  ultimately show ?case using ps by auto
qed

lemma scan_numeric_ends:
  assumes "scan engine str = Inr ps"
    and "\<And>pat ms m. engine pat str = Inr ms \<Longrightarrow> m \<in> set ms \<Longrightarrow> m_groups m \<noteq> []"
  shows "\<forall>p\<in>set ps. numeric_end p"
  using assms(1) unfolding scan_def
  by (rule scan_rules_numeric_ends) (use Colors_plain_keys assms(2) in auto)

section \<open>Ties between candidate spans\<close>

lemma accepted_append:
  "accepted E (xs @ ys) = accepted E xs @ accepted (end_after E xs) ys"
  by (induction xs arbitrary: E) auto

lemma sorted_three_parts:
  "sorted (map f xs) \<Longrightarrow>
   xs = filter (\<lambda>x. f x < (p::nat)) xs @ filter (\<lambda>x. f x = p) xs @ filter (\<lambda>x. p < f x) xs"
proof (induction xs)
  case Nil
  then show ?case by simp
next
  case (Cons x xs)
  then have ih: "xs = filter (\<lambda>x. f x < p) xs @ filter (\<lambda>x. f x = p) xs @ filter (\<lambda>x. p < f x) xs"
    by simp
  have le: "\<forall>y\<in>set xs. f x \<le> f y" using Cons.prems by simp
  consider "f x < p" | "f x = p" | "p < f x" by linarith
  then show ?case
  proof cases
    case 1
    then show ?thesis using ih by simp
  next
    case 2
    then have "filter (\<lambda>x. f x < p) xs = []" using le by (auto simp: filter_empty_conv)
    then show ?thesis using 2 ih by simp
  next
    case 3
    then have "filter (\<lambda>x. f x < p) xs = []" "filter (\<lambda>x. f x = p) xs = []"
      using le by (auto simp: filter_empty_conv)
    then show ?thesis using 3 ih by simp
  qed
qed

lemma end_after_numeric:
  "E \<noteq> NaN \<Longrightarrow> \<forall>p\<in>set ps. numeric_end p \<Longrightarrow> end_after E ps \<noteq> NaN"
  by (induction ps arbitrary: E) (auto simp: numeric_end_def)

lemma accepted_all_skipped:
  "\<forall>q\<in>set ps. js_less (int (span_start q)) E \<Longrightarrow> accepted E ps = []"
  by (induction ps) auto

text \<open>Among candidates that all start at \<open>p\<close>, only the first can be accepted.\<close>

lemma accepted_tied:
  assumes "\<forall>q\<in>set (s1 # bs). span_start q = p" and "js_less (int p) (span_end s1)"
  shows "accepted E (s1 # bs) = (if js_less (int p) E then [] else [s1])"
proof (cases "js_less (int p) E")
  case True
  then have "\<forall>q\<in>set (s1 # bs). js_less (int (span_start q)) E" using assms(1) by simp
  then show ?thesis using True accepted_all_skipped by simp
next
  case False
  have "\<forall>q\<in>set bs. js_less (int (span_start q)) (span_end s1)" using assms by simp
  then have "accepted (span_end s1) bs = []" by (rule accepted_all_skipped)
  then show ?thesis using False assms(1) by simp
qed

lemma js_ge_less: "E \<noteq> NaN \<Longrightarrow> js_ge a E \<longleftrightarrow> \<not> js_less a E"
  by (cases E) auto

lemma earlier_ends_iff:
  assumes "E \<noteq> NaN" and "\<forall>q\<in>set as. numeric_end q" and "\<forall>q\<in>set as. span_start q < p"
  shows "((\<forall>q\<in>set (accepted E as). js_ge (int p) (span_end q)) \<and> js_ge (int p) E)
           \<longleftrightarrow> js_ge (int p) (end_after E as)"
  using assms
proof (induction as arbitrary: E)
  case Nil
  then show ?case by simp
next
  case (Cons a as)
  show ?case
  proof (cases "js_less (int (span_start a)) E")
    case True
    then show ?thesis using Cons by simp
  next
    case False
    have ne: "span_end a \<noteq> NaN" using Cons.prems(2) by (simp add: numeric_end_def)
    have ih: "((\<forall>q\<in>set (accepted (span_end a) as). js_ge (int p) (span_end q)) \<and> js_ge (int p) (span_end a))
           \<longleftrightarrow> js_ge (int p) (end_after (span_end a) as)"
      using Cons.IH [OF ne] Cons.prems by simp
    have "js_ge (int p) E"
    proof -
      obtain e where e: "E = Num e" using Cons.prems(1) by (cases E) auto
      have "span_start a < p" using Cons.prems(3) by simp
      then show ?thesis using False e by simp
    qed
    then show ?thesis using False ih by auto
  qed
qed

lemma find_filter_hd:
  "find P xs = Some x \<Longrightarrow> \<exists>bs. filter P xs = x # bs"
  by (induction xs) (auto split: if_splits)

text \<open>
  Candidates with the same start keep, through the stable sort, the order in which they
  were pushed.  Let \<open>s1\<close> be the first candidate pushed that starts at its offset, and
  let it be non-empty.  Then \<open>s1\<close> is the only candidate starting there that can be
  accepted, and it is accepted exactly when no accepted span that starts earlier extends
  beyond that offset; otherwise every candidate starting at that offset is discarded.
\<close>

lemma accepted_tied_first:
  assumes num: "\<forall>q\<in>set positions. numeric_end q"
      and first: "find (\<lambda>s. span_start s = span_start s1) positions = Some s1"
      and nonempty: "js_less (int (span_start s1)) (span_end s1)"
  shows "filter (\<lambda>s. span_start s = span_start s1) (sort_positions positions)
           = filter (\<lambda>s. span_start s = span_start s1) positions \<and>
         filter (\<lambda>s. span_start s = span_start s1) (accepted_spans positions)
           = (if \<forall>q\<in>set (accepted_spans positions).
                    span_start q < span_start s1 \<longrightarrow> js_ge (int (span_start s1)) (span_end q)
              then [s1] else [])"
proof
  define p where "p = span_start s1"
  define L where "L = sort_positions positions"
  define A where "A = filter (\<lambda>s. span_start s < p) L"
  define B where "B = filter (\<lambda>s. span_start s = p) L"
  define C where "C = filter (\<lambda>s. p < span_start s) L"
  define E1 where "E1 = end_after (Num (- 1)) A"
  show stable: "filter (\<lambda>s. span_start s = span_start s1) (sort_positions positions)
           = filter (\<lambda>s. span_start s = span_start s1) positions"
    unfolding sort_positions_def by (rule sort_key_stable)
  from find_filter_hd [OF first] obtain bs
    where bs: "filter (\<lambda>s. span_start s = p) positions = s1 # bs"
    unfolding p_def by auto
  have B: "B = s1 # bs" using stable bs unfolding B_def L_def p_def by simp
  have Bp: "\<forall>q\<in>set (s1 # bs). span_start q = p"
  proof
    fix q assume "q \<in> set (s1 # bs)"
    then have "q \<in> set (filter (\<lambda>s. span_start s = p) L)" using B unfolding B_def by simp
    then show "span_start q = p" by simp
  qed
  have L: "L = A @ B @ C"
    unfolding A_def B_def C_def
    by (rule sorted_three_parts) (simp add: L_def sort_positions_def)
  have numL: "\<forall>q\<in>set L. numeric_end q" using num by (simp add: L_def sort_positions_def)
  have numA: "\<forall>q\<in>set A. numeric_end q" using numL by (simp add: A_def)
  have ltA: "\<forall>q\<in>set A. span_start q < p" by (simp add: A_def)
  have E1: "E1 \<noteq> NaN" unfolding E1_def by (rule end_after_numeric) (use numA in simp_all)
  have accB: "accepted E1 B = (if js_less (int p) E1 then [] else [s1])"
    unfolding B by (rule accepted_tied [OF Bp]) (use nonempty in \<open>simp add: p_def\<close>)
  have acc: "accepted_spans positions
               = accepted (Num (- 1)) A @ accepted E1 B @ accepted (end_after E1 B) C"
    unfolding accepted_spans_def L_def [symmetric] L E1_def by (simp add: accepted_append)
  have fA: "filter (\<lambda>s. span_start s = p) (accepted (Num (- 1)) A) = []"
    using accepted_subset [of "Num (- 1)" A] ltA by (auto simp: filter_empty_conv)
  have fC: "filter (\<lambda>s. span_start s = p) (accepted (end_after E1 B) C) = []"
    using accepted_subset [of "end_after E1 B" C] by (auto simp: filter_empty_conv C_def)
  have fB: "filter (\<lambda>s. span_start s = p) (accepted E1 B) = accepted E1 B"
    using accB by (simp add: p_def)
  have lhs: "filter (\<lambda>s. span_start s = p) (accepted_spans positions)
               = (if js_less (int p) E1 then [] else [s1])"
    using acc fA fB fC accB by simp
  have geC: "\<forall>q\<in>set (accepted (end_after E1 B) C). \<not> span_start q < p"
    using accepted_subset [of "end_after E1 B" C] by (auto simp: C_def)
  have geB: "\<forall>q\<in>set (accepted E1 B). \<not> span_start q < p"
    using accB by (auto simp: p_def)
  have ltA': "\<forall>q\<in>set (accepted (Num (- 1)) A). span_start q < p"
    using accepted_subset [of "Num (- 1)" A] ltA by auto
  have "(\<forall>q\<in>set (accepted_spans positions). span_start q < p \<longrightarrow> js_ge (int p) (span_end q))
          \<longleftrightarrow> (\<forall>q\<in>set (accepted (Num (- 1)) A). js_ge (int p) (span_end q))"
    unfolding acc using geB geC ltA' by auto
  also have "\<dots> \<longleftrightarrow> js_ge (int p) E1"
    unfolding E1_def
    using earlier_ends_iff [of "Num (- 1)" A p] numA ltA by simp
  also have "\<dots> \<longleftrightarrow> \<not> js_less (int p) E1" using E1 by (rule js_ge_less)
  finally have cond: "(\<forall>q\<in>set (accepted_spans positions). span_start q < p \<longrightarrow> js_ge (int p) (span_end q))
          \<longleftrightarrow> \<not> js_less (int p) E1" .
  show "filter (\<lambda>s. span_start s = span_start s1) (accepted_spans positions)
           = (if \<forall>q\<in>set (accepted_spans positions).
                    span_start q < span_start s1 \<longrightarrow> js_ge (int (span_start s1)) (span_end q)
              then [s1] else [])"
    using lhs cond unfolding p_def by auto
qed

section \<open>The parse expression is created once\<close>

lemma getParseRegex_stored:
  "parseRegex st = Some r \<Longrightarrow> getParseRegex st = (r, st)"
  by (simp add: getParseRegex_def)

lemma call_times_stored:
  "parseRegex st = Some r \<Longrightarrow> call_times n st = (replicate n r, st)"
  by (induction n) (simp_all add: getParseRegex_stored)

lemma parse_pattern_text:
  "parse_pattern = ''^(?:([+-])?([0-9.]+)([+-])([0-9.]+)([a-z])|([+-])?([0-9.]+)([+-])([a-z])([0-9.]+)|([+-])?([0-9.]+)([a-z])([+-])([0-9.]+)|([+-])?([a-z])([0-9.]+)([+-])([0-9.]+)|([+-])?([0-9.]+)|([+-])?([0-9.]+)([a-z])|([+-])?([a-z])([0-9.]+))$''"
  by (simp add: parse_pattern_def syntax_alternatives_def SIGN_def DIGITS_def IDENTIFIER_def)

text \<open>
  C9.  Memoized parse expression.  Starting from a state in which the static field is
  not set, the first call creates one \<open>RegExp\<close> object and stores it; that call and every
  later one return this same object and, after the first, leave the state as it is, so
  however many calls are made exactly one object has been created.  The pattern does not
  depend on the state: computing it again from any other fresh state yields the same
  pattern text, which is the one spelled out below, with the flags \<open>mi\<close>.
\<close>

theorem parse_regex_memoized:
  assumes "parseRegex st = None"
  shows "call_times (Suc n) st = (replicate (Suc n) (fst (getParseRegex st)), snd (getParseRegex st)) \<and>
         parseRegex (snd (getParseRegex st)) = Some (fst (getParseRegex st)) \<and>
         created (snd (getParseRegex st)) = Suc (created st) \<and>
         created (snd (call_times (Suc n) st)) = Suc (created st) \<and>
         re_source (fst (getParseRegex st)) = parse_pattern \<and>
         re_flags (fst (getParseRegex st)) = ''mi'' \<and>
         (\<forall>st'. parseRegex st' = None \<longrightarrow>
             re_source (fst (getParseRegex st')) = re_source (fst (getParseRegex st))) \<and>
         parse_pattern = ''^(?:([+-])?([0-9.]+)([+-])([0-9.]+)([a-z])|([+-])?([0-9.]+)([+-])([a-z])([0-9.]+)|([+-])?([0-9.]+)([a-z])([+-])([0-9.]+)|([+-])?([a-z])([0-9.]+)([+-])([0-9.]+)|([+-])?([0-9.]+)|([+-])?([0-9.]+)([a-z])|([+-])?([a-z])([0-9.]+))$''"
proof -
  obtain r st1 where g: "getParseRegex st = (r, st1)" by (cases "getParseRegex st") auto
  have s: "parseRegex st1 = Some r" "created st1 = Suc (created st)"
    "re_source r = parse_pattern" "re_flags r = ''mi''"
    using g assms by (auto simp: getParseRegex_def Let_def)
  have c: "call_times (Suc n) st = (replicate (Suc n) r, st1)"
    using g call_times_stored [OF s(1), of n] by simp
  have i: "\<forall>st'. parseRegex st' = None \<longrightarrow> re_source (fst (getParseRegex st')) = re_source r"
    using s(3) by (simp add: getParseRegex_def Let_def)
  show ?thesis using g s c i parse_pattern_text by simp
qed

theorem parse_regex_memoized_witness:
  "call_times 3 \<lparr>parseRegex = None, created = 0\<rparr>
     = (replicate 3 \<lparr>re_id = 0, re_source = parse_pattern, re_flags = ''mi''\<rparr>,
        \<lparr>parseRegex = Some \<lparr>re_id = 0, re_source = parse_pattern, re_flags = ''mi''\<rparr>, created = 1\<rparr>)"
  using parse_regex_memoized [of "\<lparr>parseRegex = None, created = 0\<rparr>" 2]
  by (simp add: getParseRegex_def Let_def numeral_3_eq_3)

section \<open>Line feeds are kept by every stage\<close>

lemma count_replace_char:
  "c \<noteq> x \<Longrightarrow> count_list r x = 0 \<Longrightarrow> count_list (replace_char c r s) x = count_list s x"
  by (induction s) (auto simp: replace_char_def)

lemma count_replace_self:
  "count_list r x = 1 \<Longrightarrow> count_list (replace_char x r s) x = count_list s x"
  by (induction s) (auto simp: replace_char_def)

lemma count_escape: "count_list (escape s) LF = count_list s LF"
  by (simp add: escape_def count_replace_char LF_def)

lemma length_split_lines: "length (split_lines s) = Suc (count_list s LF)"
  by (induction s) (auto split: list.splits)


lemma split_lines_no_LF: "\<forall>l\<in>set (split_lines s). LF \<notin> set l"
  by (induction s) (auto split: list.splits)

lemma split_join:
  "ls \<noteq> [] \<Longrightarrow> \<forall>l\<in>set ls. LF \<notin> set l \<Longrightarrow> split_lines (js_join [LF] ls) = ls"
proof (induction "[LF]" ls rule: js_join.induct)
  case 1
  then show ?case by simp
next
  case (2 x)
  have "LF \<notin> set x \<Longrightarrow> split_lines x = [x]" by (induction x) auto
  then show ?case using 2 by simp
next
  case (3 x y ys)
  have "LF \<notin> set x \<Longrightarrow> split_lines (x @ LF # r) = x # split_lines r" for r
    by (induction x) (auto split: list.splits)
  then show ?case using 3 by simp
qed

lemma count_insert_text: "count_list (insert_text p t s) x = count_list s x + count_list t x"
proof -
  have "count_list (take n s) x + count_list (drop n s) x = count_list s x" for n
    by (metis append_take_drop_id count_list_append)
  then show ?thesis by (simp add: insert_text_def)
qed

lemma count_open_tag: "count_list (open_tag c) x = count_list ''<span style=\"color: var(--'' x + count_list c x + count_list '')\">'' x"
  by (simp add: open_tag_def)

lemma count_wrap_span:
  "count_list (span_color p) LF = 0 \<Longrightarrow> count_list (c_str (wrap_span p st)) LF = count_list (c_str st) LF"
  by (simp add: wrap_span_def Let_def count_insert_text open_tag_def close_tag_def LF_def)

lemma count_fold_wrap:
  "\<forall>p\<in>set ps. count_list (span_color p) LF = 0 \<Longrightarrow>
   count_list (c_str (fold wrap_span ps st)) LF = count_list (c_str st) LF"
  by (induction ps arbitrary: st) (simp_all add: count_wrap_span)

lemma count_compose:
  "\<forall>p\<in>set ps. count_list (span_color p) LF = 0 \<Longrightarrow>
   count_list (c_str (compose ps s)) LF = count_list s LF"
  by (simp add: compose_def count_fold_wrap sort_positions_def compositor_init_def)

lemma count_replace_double_space:
  "count_list (replace_double_space s) LF = count_list s LF"
  by (induction s rule: replace_double_space.induct) (auto simp: NBSP_def LF_def)

lemma count_TAB: "count_list (TAB n) LF = 0"
  by (induction n) (auto simp: TAB_def NBSP_def LF_def)

lemma TAB_no_LF: "LF \<notin> set (TAB n)"
  by (induction n) (auto simp: TAB_def NBSP_def LF_def)

lemma length_infer_blank_lines: "length (infer_blank_lines n prev ls) = length ls"
  by (induction ls arbitrary: prev) (auto simp: Let_def)

lemma infer_blank_lines_no_LF:
  "\<forall>l\<in>set ls. LF \<notin> set l \<Longrightarrow> \<forall>l\<in>set (infer_blank_lines n prev ls). LF \<notin> set l"
  by (induction ls arbitrary: prev) (auto simp: Let_def TAB_no_LF)

lemma to_lower_LF: "to_lower LF = LF"
  by (simp add: to_lower_def LF_def)

lemma ci_prefix_take:
  "ci_prefix p s \<Longrightarrow> map to_lower (take (length p) s) = p \<and> length (take (length p) s) = length p"
proof -
  assume "ci_prefix p s"
  then have pr: "prefix p (map to_lower (take (length p) s))" by (simp add: ci_prefix_def)
  then have "length p \<le> length (take (length p) s)" using prefix_length_le by fastforce
  then have l: "length (take (length p) s) = length p" by simp
  from pr obtain zs where zs: "map to_lower (take (length p) s) = p @ zs" by (auto simp: prefix_def)
  then have "length (map to_lower (take (length p) s)) = length p + length zs" by simp
  then have "zs = []" using l by simp
  with zs l show ?thesis by simp
qed

lemma ci_prefix_no_LF:
  assumes "ci_prefix p s" and "LF \<notin> set p"
  shows "LF \<notin> set (take (length p) s)"
proof
  assume "LF \<in> set (take (length p) s)"
  then have "to_lower LF \<in> set (map to_lower (take (length p) s))" by (simp add: image_iff) blast
  then show False using ci_prefix_take [OF assms(1)] assms(2) by (simp add: to_lower_LF)
qed

lemma ci_prefix_literal:
  assumes "ci_prefix p s" and "LF \<notin> set p" and "length p = n"
  shows "LF \<notin> set (take n s) \<and> length (take n s) = n"
  using ci_prefix_no_LF [OF assms(1,2)] ci_prefix_take [OF assms(1)] assms(3) by auto

lemma ci_prefix_split:
  "ci_prefix p s \<Longrightarrow> s = take (length p) s @ drop (length p) s \<and> length (take (length p) s) = length p"
  using ci_prefix_take by simp

lemma match_sub_shape:
  "match_sub s = Some (sub, t1) \<Longrightarrow> \<exists>rest. s = sub @ t1 @ rest \<and> LF \<notin> set t1 \<and> length t1 = 7"
proof (induction s arbitrary: sub rule: match_sub.induct)
  case 1
  then show ?case by simp
next
  case (2 c cs)
  show ?case
  proof (cases "ci_prefix ''</span>'' (c # cs)")
    case True
    then have e: "sub = []" "t1 = take 7 (c # cs)" using "2.prems" by auto
    have "LF \<notin> set (take 7 (c # cs)) \<and> length (take 7 (c # cs)) = 7"
      by (rule ci_prefix_literal [OF True]) (simp_all add: LF_def)
    then show ?thesis unfolding e by (intro exI [of _ "drop 7 (c # cs)"]) simp
  next
    case False
    show ?thesis
    proof (cases "line_terminator c")
      case nt: False
      then obtain sub' where s: "match_sub cs = Some (sub', t1)" "sub = c # sub'"
        using "2.prems" False by auto
      from "2.IH"(1) [OF False _ s(1)] nt obtain rest where "cs = sub' @ t1 @ rest \<and> LF \<notin> set t1 \<and> length t1 = 7"
        by auto
      then show ?thesis using s(2) by auto
    next
      case True
      then have crlf: "c = CR \<and> prefix [LF] cs" using "2.prems" False by (auto split: if_splits)
      then obtain sub' where s: "match_sub (tl cs) = Some (sub', t1)" "sub = c # LF # sub'"
        using "2.prems" False True by auto
      from "2.IH"(2) [OF False _ _ s(1)] True crlf obtain rest where r: "tl cs = sub' @ t1 @ rest \<and> LF \<notin> set t1 \<and> length t1 = 7"
        by auto
      have "cs = LF # tl cs" using crlf by (cases cs) auto
      then show ?thesis using s(2) r by (intro exI [of _ rest]) (metis append_Cons)
    qed
  qed
qed

lemma match_open_shape:
  "match_open s = Some (t, sub, t1) \<Longrightarrow>
     \<exists>rest. s = t @ sub @ t1 @ rest \<and> LF \<notin> set t \<and> LF \<notin> set t1 \<and> length t1 = 7"
proof (induction s arbitrary: t rule: match_open.induct)
  case 1
  then show ?case by simp
next
  case (2 c cs)
  let ?first = "(if prefix ''\">'' (c # cs) then match_sub (tl cs) else None)"
  show ?case
  proof (cases ?first)
    case (Some r)
    then have p: "prefix ''\">'' (c # cs)" and m: "match_sub (tl cs) = Some r" by (auto split: if_splits)
    from Some "2.prems" have r: "r = (sub, t1)" "t = ''\">''" by (auto split: prod.splits)
    from match_sub_shape [OF m [unfolded r(1)]] obtain rest
      where "tl cs = sub @ t1 @ rest \<and> LF \<notin> set t1 \<and> length t1 = 7" by blast
    moreover have "c # cs = ''\">'' @ tl cs" using p by (cases cs) (auto simp: prefix_def)
    ultimately show ?thesis using r(2) by (intro exI [of _ rest]) (simp add: LF_def)
  next
    case None
    then have nt: "\<not> line_terminator c" using "2.prems" by (auto split: if_splits)
    with None "2.prems" obtain t' where s: "match_open cs = Some (t', sub, t1)" "t = c # t'"
      by auto
    from "2.IH" [OF None nt s(1)] obtain rest
      where "cs = t' @ sub @ t1 @ rest \<and> LF \<notin> set t' \<and> LF \<notin> set t1 \<and> length t1 = 7" by blast
    then show ?thesis using s(2) nt by (intro exI [of _ rest]) (auto simp: line_terminator_def)
  qed
qed

lemma span_match_shape:
  assumes "span_match s = Some (t0, sub, t1)"
  shows "\<exists>rest. s = t0 @ sub @ t1 @ rest \<and> LF \<notin> set t0 \<and> LF \<notin> set t1 \<and> length t1 = 7"
proof -
  from assms have ci: "ci_prefix ''<span style=\"'' s" by (auto simp: span_match_def split: if_splits)
  with assms obtain t where m: "match_open (drop 13 s) = Some (t, sub, t1)" "t0 = take 13 s @ t"
    by (auto simp: span_match_def)
  from match_open_shape [OF m(1)] obtain rest
    where r: "drop 13 s = t @ sub @ t1 @ rest \<and> LF \<notin> set t \<and> LF \<notin> set t1 \<and> length t1 = 7" by blast
  have "LF \<notin> set (take 13 s) \<and> length (take 13 s) = 13"
    by (rule ci_prefix_literal [OF ci]) (simp_all add: LF_def)
  then have n: "LF \<notin> set (take 13 s)" by simp
  have "s = take 13 s @ drop 13 s" by simp
  then have "s = t0 @ sub @ t1 @ rest" using r m(2) by (metis append.assoc)
  then show ?thesis using r n m(2) by auto
qed

lemma count_zero_iff: "count_list xs x = 0 \<longleftrightarrow> x \<notin> set xs"
  by (induction xs) auto

lemma count_reopen_span:
  assumes "LF \<notin> set t0" and "LF \<notin> set t1"
  shows "count_list (reopen_span t0 sub t1) LF = count_list sub LF"
proof -
  have z: "count_list t0 LF = 0" "count_list t1 LF = 0" using assms by (simp_all add: count_zero_iff)
  then have "count_list (t1 @ [LF] @ t0) LF = 1" by simp
  then have "count_list (replace_char LF (t1 @ [LF] @ t0) sub) LF = count_list sub LF"
    by (rule count_replace_self)
  then show ?thesis using z by (simp add: reopen_span_def)
qed

lemma count_close_spans:
  "count_list (close_spans_at_newlines s) LF = count_list s LF"
proof (induction s rule: close_spans_at_newlines.induct)
  case 1
  then show ?case by simp
next
  case (2 c cs)
  show ?case
  proof (cases "span_match (c # cs)")
    case None
    then show ?thesis using "2.IH"(1) by simp
  next
    case (Some r)
    obtain t0 sub t1 where r: "r = (t0, sub, t1)" by (cases r) auto
    from span_match_shape [OF Some [unfolded r]] obtain rest
      where s: "c # cs = t0 @ sub @ t1 @ rest" "LF \<notin> set t0" "LF \<notin> set t1" "length t1 = 7" by blast
    have d: "drop (length t0 + length sub + length t1 - 1) cs = rest"
    proof -
      have "drop (length t0 + length sub + length t1) (c # cs) = rest" using s(1) by simp
      moreover have "0 < length t0 + length sub + length t1" using s(4) by simp
      ultimately show ?thesis by (cases "length t0 + length sub + length t1") auto
    qed
    have ih: "count_list (close_spans_at_newlines rest) LF = count_list rest LF"
      using "2.IH"(2) [OF Some [unfolded r] refl refl] d by simp
    have "count_list (c # cs) LF = count_list sub LF + count_list rest LF"
      unfolding s(1) using s(2,3) by (simp add: count_zero_iff)
    then show ?thesis using Some r d ih count_reopen_span [OF s(2,3)] by simp
  qed
qed

lemma Colors_clean:
  "\<forall>key\<in>set (map fst Colors). clean_color (rule_color Colors key)"
  by code_simp

lemma span_of_match_color:
  "span_of_match idx color str m = Inr p \<Longrightarrow> span_color p = color"
  by (auto simp: span_of_match_def span_color_def Let_def split: jsval.splits)

lemma scan_rules_colors:
  assumes "scan_rules table engine str keys = Inr ps"
  shows "\<forall>p\<in>set ps. span_color p \<in> rule_color table ` set keys"
  using assms
proof (induction keys arbitrary: ps)
  case Nil
  then show ?case by simp
next
  case (Cons key keys)
  from Cons.prems obtain qs rs where
    q: "scan_rule table engine str key = Inr qs" and
    r: "scan_rules table engine str keys = Inr rs" and ps: "ps = qs @ rs"
    by (auto split: sum.splits)
  from q obtain ms where
    c: "collect_spans (span_of_match (rule_index key) (rule_color table key) str) ms = Inr qs"
    by (auto simp: scan_rule_def split: sum.splits)
  have "\<forall>p\<in>set qs. span_color p = rule_color table key"
    using c by (rule collect_spans_all) (auto dest: span_of_match_color)
  moreover have "\<forall>p\<in>set rs. span_color p \<in> rule_color table ` set keys" using Cons.IH [OF r] .
  ultimately show ?case using ps by auto
qed

lemma scan_colors_clean:
  assumes "scan engine str = Inr ps"
  shows "\<forall>p\<in>set ps. clean_color (span_color p)"
proof
  fix p assume "p \<in> set ps"
  then have "span_color p \<in> rule_color Colors ` set (map fst Colors)"
    using scan_rules_colors [OF assms [unfolded scan_def]] by blast
  then show "clean_color (span_color p)" using Colors_clean by auto
qed

lemma clean_color_no_LF: "clean_color c \<Longrightarrow> count_list c LF = 0"
  by (auto simp: clean_color_def line_terminator_def count_zero_iff)

lemma count_try_block:
  assumes "try_block engine s = Inr t"
  shows "count_list t LF = count_list s LF"
proof -
  from assms obtain ps where ps: "scan engine s = Inr ps"
    and t: "t = close_spans_at_newlines (c_str (compose ps s))"
    by (auto simp: try_block_def split: sum.splits)
  have "\<forall>p\<in>set ps. count_list (span_color p) LF = 0"
    using scan_colors_clean [OF ps] clean_color_no_LF by blast
  then show ?thesis using t by (simp add: count_close_spans count_compose)
qed

lemma indent_callback_ok:
  "0 < n \<Longrightarrow> \<exists>r. indent_callback n prev bef tabs = Inr r"
  by (simp add: indent_callback_def repeat_quotient_def Let_def)

lemma replace_indent_ok:
  assumes "\<And>bef tabs. \<exists>r. cb bef tabs = Inr r"
  shows "\<exists>r. replace_indent cb s = Inr r"
proof (induction s)
  case Nil
  then show ?case by simp
next
  case (Cons c cs)
  then obtain r where r: "replace_indent cb cs = Inr r" by blast
  show ?case
  proof (cases "indent_match (c # cs)")
    case None
    then show ?thesis using r by simp
  next
    case (Some bt)
    obtain bef tabs where bt: "bt = (bef, tabs)" by (cases bt) auto
    from assms obtain r' where "cb bef tabs = Inr r'" by blast
    then show ?thesis using Some bt by simp
  qed
qed

lemma emit_row_ok:
  "0 < tabSize opts \<Longrightarrow> \<exists>row. emit_row opts failed i prev line = Inr row"
  unfolding emit_row_def
  using replace_indent_ok [of "indent_callback (tabSize opts) prev"] indent_callback_ok [of "tabSize opts" prev]
  by auto

lemma emit_rows_ok:
  "0 < tabSize opts \<Longrightarrow>
     \<exists>rows. emit_rows opts failed i prev ls = Inr rows \<and> length rows = length ls"
proof (induction ls arbitrary: i prev)
  case Nil
  then show ?case by simp
next
  case (Cons l ls)
  from emit_row_ok [OF Cons.prems] obtain row where row: "emit_row opts failed i prev l = Inr row" by blast
  from Cons.IH [OF Cons.prems] obtain rows
    where rows: "emit_rows opts failed (Suc i) (Some row) ls = Inr rows" "length rows = length ls" by blast
  show ?case using row rows by simp
qed

lemma reconstruct_ok:
  assumes "0 < tabSize opts"
  shows "\<exists>rows. reconstruct opts failed s = Inr rows \<and> length rows = Suc (count_list s LF)"
proof -
  let ?s2 = "replace_double_space (replace_char (CHR 0x09) (TAB (tabSize opts)) s)"
  let ?l1 = "infer_blank_lines (tabSize opts) [] (split_lines ?s2)"
  have "count_list (replace_char (CHR 0x09) (TAB (tabSize opts)) s) LF = count_list s LF"
    by (rule count_replace_char) (simp add: LF_def, rule count_TAB)
  then have c2: "count_list ?s2 LF = count_list s LF"
    by (simp add: count_replace_double_space)
  have l1: "length ?l1 = Suc (count_list s LF)"
    by (simp add: length_infer_blank_lines length_split_lines c2)
  then have ne: "?l1 \<noteq> []" by auto
  have "\<forall>l\<in>set ?l1. LF \<notin> set l"
    by (rule infer_blank_lines_no_LF) (rule split_lines_no_LF)
  then have sj: "split_lines (js_join [LF] ?l1) = ?l1" using ne by (rule split_join [rotated])
  from emit_rows_ok [OF assms, of failed 0 None ?l1] obtain rows
    where "emit_rows opts failed 0 None ?l1 = Inr rows" "length rows = length ?l1" by blast
  then show ?thesis using sj l1 by (simp add: reconstruct_def Let_def)
qed

section \<open>One row per line\<close>

lemma indent_match_not_lt: "c \<noteq> CHR ''<'' \<Longrightarrow> indent_match (c # cs) = None"
  by (simp add: indent_match_def)

lemma indent_match_lt_other:
  "d \<noteq> CHR ''p'' \<Longrightarrow> d \<noteq> CHR ''s'' \<Longrightarrow> indent_match (CHR ''<'' # d # cs) = None"
  by (simp add: indent_match_def)

lemma replace_indent_safe:
  "safe_prefix P \<Longrightarrow>
   replace_indent cb (P @ R) = (case replace_indent cb R of Inl e \<Rightarrow> Inl e | Inr r \<Rightarrow> Inr (P @ r))"
proof (induction P rule: safe_prefix.induct)
  case 1
  then show ?case by (simp split: sum.splits)
next
  case (2 c)
  then show ?case by (simp add: indent_match_not_lt split: sum.splits)
next
  case (3 c d cs)
  then have "indent_match (c # d # cs @ R) = None"
    by (cases "c = CHR ''<''") (auto simp: indent_match_not_lt indent_match_lt_other)
  then show ?case using 3 by (simp split: sum.splits)
qed

lemma safe_prefix_append:
  "safe_prefix A \<Longrightarrow> safe_prefix B \<Longrightarrow> safe_prefix (A @ B)"
proof (induction A rule: safe_prefix.induct)
  case 1
  then show ?case by simp
next
  case (2 c)
  then show ?case by (cases B) auto
next
  case (3 c d cs)
  then show ?case by simp
qed

lemma safe_prefix_no_lt: "\<forall>c\<in>set P. c \<noteq> CHR ''<'' \<Longrightarrow> safe_prefix P"
  by (induction P rule: safe_prefix.induct) auto

lemma show_nat_digits: "set (show_nat n) \<subseteq> set ''0123456789''"
proof (induction n rule: show_nat.induct)
  case (1 n)
  show ?case
  proof (cases "n < 10")
    case True
    then have "''0123456789'' ! n \<in> set ''0123456789''" by (intro nth_mem) simp
    then show ?thesis using True by (subst show_nat.simps) simp
  next
    case False
    have "''0123456789'' ! (n mod 10) \<in> set ''0123456789''" by (intro nth_mem) simp
    then show ?thesis using False 1 by (subst show_nat.simps) simp
  qed
qed

lemma safe_show_nat: "safe_prefix (show_nat n)"
  by (rule safe_prefix_no_lt) (use show_nat_digits [of n] in auto)

lemma row_open_safe: "safe_prefix (row_open opts i)"
proof -
  have a: "safe_prefix ''<tr class=\"highlight-tr\">''" by simp
  have b: "safe_prefix ''<td class=\"highlight-line\"><div class=\"highlight-div\">''" by simp
  have c: "safe_prefix ''</div></td>''" by simp
  have d: "safe_prefix ''<td class=\"highlight-code\">''" by simp
  have e: "safe_prefix []" by simp
  show ?thesis
    unfolding row_open_def
    by (cases "lineNumbers opts") (simp_all only: if_True if_False, (intro safe_prefix_append a b c d e safe_show_nat)+)
qed

lemma row_open_start: "prefix ''<tr class=\"highlight-tr\">'' (row_open opts i)"
  by (simp add: row_open_def)

lemma emit_row_start:
  assumes "emit_row opts failed i prev line = Inr row"
  shows "\<exists>x. row = row_open opts i @ x"
proof (cases "indentLines opts")
  case False
  then show ?thesis using assms by (auto simp: emit_row_def code_row_def)
next
  case True
  then have "replace_indent (indent_callback (tabSize opts) prev)
               (row_open opts i @ (pre_open failed @ row_content line @ row_close)) = Inr row"
    using assms by (simp add: emit_row_def code_row_def)
  then show ?thesis
    by (auto simp: replace_indent_safe [OF row_open_safe] split: sum.splits)
qed

lemma emit_rows_start:
  "emit_rows opts failed i prev ls = Inr rows \<Longrightarrow>
     \<forall>r\<in>set rows. prefix ''<tr class=\"highlight-tr\">'' r"
proof (induction ls arbitrary: i prev rows)
  case Nil
  then show ?case by simp
next
  case (Cons l ls)
  from Cons.prems obtain row rest where
    r: "emit_row opts failed i prev l = Inr row"
       "emit_rows opts failed (Suc i) (Some row) ls = Inr rest" "rows = row # rest"
    by (auto split: sum.splits)
  from emit_row_start [OF r(1)] obtain x where "row = row_open opts i @ x" by blast
  then have "prefix ''<tr class=\"highlight-tr\">'' row"
    using row_open_start [of opts i] by (metis prefix_prefix)
  then show ?case using Cons.IH [OF r(2)] r(3) by simp
qed

lemma reconstruct_start:
  "reconstruct opts failed s = Inr rows \<Longrightarrow> \<forall>r\<in>set rows. prefix ''<tr class=\"highlight-tr\">'' r"
  unfolding reconstruct_def Let_def by (rule emit_rows_start)

lemma Highlight_rows:
  assumes "0 < tabSize (resolve_options arg)"
  shows "\<exists>m calls rows. Highlight engine str arg has_onerror = Inr (m, calls) \<and> table_rows m = rows \<and>
           (case try_block engine (escape str) of
              Inr annotated \<Rightarrow> reconstruct (resolve_options arg) False annotated = Inr rows \<and> calls = []
            | Inl e \<Rightarrow> reconstruct (resolve_options arg) True (escape str) = Inr rows \<and>
                       calls = (if has_onerror then [(e, str)] else []))"
proof (cases "try_block engine (escape str)")
  case (Inl e)
  from reconstruct_ok [OF assms, of True "escape str"] obtain rows
    where "reconstruct (resolve_options arg) True (escape str) = Inr rows" by blast
  then show ?thesis using Inl by (simp add: Highlight_def Let_def)
next
  case (Inr annotated)
  from reconstruct_ok [OF assms, of False annotated] obtain rows
    where "reconstruct (resolve_options arg) False annotated = Inr rows" by blast
  then show ?thesis using Inr by (simp add: Highlight_def Let_def)
qed

text \<open>
  C5.  Row-count round trip.  For every input text, the empty one and those ending in
  blank lines included, every regular expression runtime and every option set with a
  positive tab size (the default is 4), \<open>Highlight\<close> returns normally and the number of
  rows it emits is one more than the number of line feeds in the input, that is, the
  number of lines the line feeds delimit; each row starts with the row wrapper
  \<^verbatim>\<open><tr class="highlight-tr">\<close>.
\<close>

theorem row_count_round_trip:
  assumes "0 < tabSize (resolve_options arg)"
  shows "\<exists>m calls. Highlight engine str arg has_onerror = Inr (m, calls) \<and>
           length (table_rows m) = Suc (count_list str LF) \<and>
           (\<forall>r\<in>set (table_rows m). prefix ''<tr class=\"highlight-tr\">'' r)"
proof -
  from Highlight_rows [OF assms, of engine str has_onerror] obtain m calls rows where
    h: "Highlight engine str arg has_onerror = Inr (m, calls)" "table_rows m = rows" and
    c: "(case try_block engine (escape str) of
              Inr annotated \<Rightarrow> reconstruct (resolve_options arg) False annotated = Inr rows \<and> calls = []
            | Inl e \<Rightarrow> reconstruct (resolve_options arg) True (escape str) = Inr rows \<and>
                       calls = (if has_onerror then [(e, str)] else []))"
    by blast
  have "length rows = Suc (count_list str LF) \<and> (\<forall>r\<in>set rows. prefix ''<tr class=\"highlight-tr\">'' r)"
  proof (cases "try_block engine (escape str)")
    case (Inl e)
    then have r: "reconstruct (resolve_options arg) True (escape str) = Inr rows" using c by simp
    from reconstruct_ok [OF assms, of True "escape str"] r
    have "length rows = Suc (count_list (escape str) LF)" by auto
    then show ?thesis using reconstruct_start [OF r] by (simp add: count_escape)
  next
    case (Inr annotated)
    then have r: "reconstruct (resolve_options arg) False annotated = Inr rows" using c by simp
    from reconstruct_ok [OF assms, of False annotated] r
    have "length rows = Suc (count_list annotated LF)" by auto
    then show ?thesis using reconstruct_start [OF r] count_try_block [OF Inr] by (simp add: count_escape)
  qed
  then show ?thesis using h by auto
qed

theorem row_count_round_trip_witness:
  "\<exists>m calls. Highlight (\<lambda>p s. Inr []) (''a'' @ [CHR 0x0A] @ ''b'' @ [CHR 0x0A, CHR 0x0A]) None False
                = Inr (m, calls) \<and>
     length (table_rows m) = 4"
  using row_count_round_trip [of None "\<lambda>p s. Inr []" "''a'' @ [CHR 0x0A] @ ''b'' @ [CHR 0x0A, CHR 0x0A]" False]
  by (auto simp: resolve_options_def or_default_def empty_options_def LF_def)

section \<open>A failed scan is contained\<close>












section \<open>Indentation of empty lines\<close>



lemma indent_callback_first:
  assumes "0 < n"
  shows "indent_callback n None bef BR = Inr (bef @ BR)"
  using assms
  by (simp add: indent_callback_def repeat_quotient_def repeat_remainder_def Let_def BR_def NBSP_def)









lemma replace_double_space_empty: "replace_double_space s = [] \<longleftrightarrow> s = []"
  by (induction s rule: replace_double_space.induct) (auto simp: NBSP_def)


lemma TAB_nonempty: "0 < n \<Longrightarrow> TAB n \<noteq> []"
  by (cases n) (auto simp: TAB_def NBSP_def)





































section \<open>Defaults of the options\<close>

lemma resolve_options_explicit:
  "resolve_options
     (Some \<lparr>opt_tabSize = Some 4, opt_indentLines = Some True, opt_wrapLines = Some False,
            opt_lineNumbers = Some True, opt_style = Some True, opt_colorVariables = Some True,
            opt_fontSize = Some 14, opt_lineHeight = Some 18, opt_allowSelection = Some False,
            opt_debug = Some False\<rparr>) = resolve_options None"
  by (simp add: resolve_options_def or_default_def empty_options_def)

text \<open>
  C8 (amended).  Option defaults.  In the newer source file, \<open>Highlight\<close> called without
  an options object, or with the empty object, behaves as with \<open>tabSize = 4\<close>,
  \<open>indentLines = true\<close>, \<open>wrapLines = false\<close>, \<open>lineNumbers = true\<close>, \<open>style = true\<close>,
  \<open>colorVariables = true\<close>, \<open>fontSize = 14\<close>, \<open>lineHeight = 18\<close>, \<open>allowSelection = false\<close>
  and \<open>debug = false\<close>, and the slot of the click handler attribute is empty.  In
  \<open>JustLib.js\<close> the defaults are the same but for \<open>allowSelection = true\<close>, and there
  the \<open>onmousedown\<close> attribute is emitted by default.
\<close>

theorem option_defaults:
  "resolve_options None =
     \<lparr>tabSize = 4, indentLines = True, wrapLines = False, lineNumbers = True, style = True,
      colorVariables = True, fontSize = 14, lineHeight = 18, allowSelection = False,
      debug = False\<rparr> \<and>
   resolve_options (Some empty_options) = resolve_options None \<and>
   Highlight engine str None has_onerror =
     Highlight engine str
       (Some \<lparr>opt_tabSize = Some 4, opt_indentLines = Some True, opt_wrapLines = Some False,
              opt_lineNumbers = Some True, opt_style = Some True, opt_colorVariables = Some True,
              opt_fontSize = Some 14, opt_lineHeight = Some 18, opt_allowSelection = Some False,
              opt_debug = Some False\<rparr>) has_onerror \<and>
   selection_attribute js_handler (resolve_options None) = [] \<and>
   resolve_options_JustLib None =
     \<lparr>tabSize = 4, indentLines = True, wrapLines = False, lineNumbers = True, style = True,
      colorVariables = True, fontSize = 14, lineHeight = 18, allowSelection = True,
      debug = False\<rparr> \<and>
   resolve_options_JustLib (Some empty_options) = resolve_options_JustLib None \<and>
   selection_attribute js_handler_JustLib (resolve_options_JustLib None)
     = ''onmousedown=\"'' @ js_handler_JustLib @ ''\"''"
proof -
  have h: "Highlight engine str None has_onerror =
     Highlight engine str
       (Some \<lparr>opt_tabSize = Some 4, opt_indentLines = Some True, opt_wrapLines = Some False,
              opt_lineNumbers = Some True, opt_style = Some True, opt_colorVariables = Some True,
              opt_fontSize = Some 14, opt_lineHeight = Some 18, opt_allowSelection = Some False,
              opt_debug = Some False\<rparr>) has_onerror"
    unfolding Highlight_def resolve_options_explicit ..
  show ?thesis
    using h
    by (simp add: resolve_options_def resolve_options_JustLib_def or_default_def empty_options_def
          selection_attribute_def)
qed

text \<open>
  C8 as stated fails for the \<open>Highlight\<close> of \<open>JustLib.js\<close>: without options,
  \<open>allowSelection\<close> is true and the handler attribute is emitted.
\<close>

theorem option_defaults_counterexample:
  "allowSelection (resolve_options_JustLib None) \<and>
   selection_attribute js_handler_JustLib (resolve_options_JustLib None) \<noteq> []"
  by (simp add: resolve_options_JustLib_def or_default_def empty_options_def selection_attribute_def)

section \<open>Composition keeps the text\<close>

lemma insert_text_behind:
  "insert_text (Num (int (length P + k))) t (P @ T) = P @ take k T @ t @ drop k T"
proof -
  have "nat (int (length P) + int k) = length P + k" by simp
  then show ?thesis by (simp add: insert_text_def)
qed

lemma span_within_end:
  "span_within n p \<Longrightarrow> span_end p = Num (int (end_offset p)) \<and> span_start p \<le> end_offset p \<and> end_offset p \<le> n"
  by (auto simp: span_within_def end_offset_def split: jsnum.splits)

lemma wrap_span_chain_step:
  assumes w: "span_within (length str) p" and s: "e \<le> span_start p"
    and st: "c_str st = P @ drop e str" "c_offset st + e = length P"
    and E: "c_End st = Num E" "E \<le> int e"
  shows "c_str (wrap_span p st)
           = (P @ take (span_start p - e) (drop e str)
                @ plain_span (span_color p) (take (end_offset p - span_start p) (drop (span_start p) str)))
             @ drop (end_offset p) str \<and>
         c_offset (wrap_span p st) + end_offset p
           = length (P @ take (span_start p - e) (drop e str)
                @ plain_span (span_color p) (take (end_offset p - span_start p) (drop (span_start p) str))) \<and>
         c_End (wrap_span p st) = Num (int (end_offset p))"
proof -
  define s where "s = span_start p"
  define en where "en = end_offset p"
  define text0 where "text0 = open_tag (span_color p)"
  from span_within_end [OF w] have b: "span_end p = Num (int en)" "s \<le> en" "en \<le> length str"
    by (simp_all add: s_def en_def)
  have es: "e \<le> s" using s by (simp add: s_def)
  have nl: "\<not> js_less (int s) (c_End st)" using E es by simp
  define P1 where "P1 = P @ take (s - e) (drop e str) @ text0"
  have p0: "s + c_offset st = length P + (s - e)" using st(2) es by simp
  have str1: "insert_text (Num (int (s + c_offset st))) text0 (c_str st) = P1 @ drop s str"
    unfolding p0 st(1) insert_text_behind P1_def using es by simp
  have lP1: "length P1 = c_offset st + s + length text0"
    using st(2) es b by (simp add: P1_def)
  have p1: "js_add (length text0 + c_offset st) (span_end p) = Num (int (length P1 + (en - s)))"
    using b lP1 by simp
  have str2: "insert_text (js_add (length text0 + c_offset st) (span_end p)) close_tag (P1 @ drop s str)
                = P1 @ take (en - s) (drop s str) @ close_tag @ drop en str"
    unfolding p1 insert_text_behind using b by simp
  have ws: "wrap_span p st =
      \<lparr>c_str = P1 @ take (en - s) (drop s str) @ close_tag @ drop en str,
       c_offset = c_offset st + (length text0 + length close_tag),
       c_Start = int s, c_End = span_end p\<rparr>"
    using nl str1 str2 by (simp add: wrap_span_def Let_def s_def [symmetric] text0_def [symmetric])
  have l2: "length (take (en - s) (drop s str)) = en - s" using b by simp
  show ?thesis
    unfolding ws s_def [symmetric] en_def [symmetric]
    using b lP1 l2 by (simp add: P1_def plain_span_def text0_def)
qed

lemma fold_wrap_render:
  assumes "chain (length str) e ps"
    and "c_str st = P @ drop e str" and "c_offset st + e = length P"
    and "c_End st = Num E" and "E \<le> int e"
  shows "c_str (fold wrap_span ps st) = P @ render plain_span e ps str"
  using assms
proof (induction ps arbitrary: e st P E)
  case Nil
  then show ?case by simp
next
  case (Cons p ps)
  from Cons.prems(1) have c: "e \<le> span_start p" "span_within (length str) p"
    "chain (length str) (end_offset p) ps" by simp_all
  let ?P' = "P @ take (span_start p - e) (drop e str)
                @ plain_span (span_color p) (take (end_offset p - span_start p) (drop (span_start p) str))"
  from wrap_span_chain_step [OF c(2) c(1) Cons.prems(2,3,4,5)]
  have w: "c_str (wrap_span p st) = ?P' @ drop (end_offset p) str"
    "c_offset (wrap_span p st) + end_offset p = length ?P'"
    "c_End (wrap_span p st) = Num (int (end_offset p))" by simp_all
  have "c_str (fold wrap_span ps (wrap_span p st)) = ?P' @ render plain_span (end_offset p) ps str"
    by (rule Cons.IH [OF c(3) w(1) w(2) w(3)]) simp
  then show ?case by simp
qed

lemma accepted_from_zero: "accepted (Num (- 1)) ps = accepted (Num 0) ps"
  by (induction ps) auto

lemma accepted_chain:
  "\<forall>p\<in>set ps. span_within n p \<Longrightarrow> chain n e (accepted (Num (int e)) ps)"
proof (induction ps arbitrary: e)
  case Nil
  then show ?case by simp
next
  case (Cons p ps)
  then have w: "span_within n p" by simp
  from span_within_end [OF w] have b: "span_end p = Num (int (end_offset p))" by simp
  have ih: "chain n e' (accepted (Num (int e')) ps)" for e' using Cons by simp
  show ?case
  proof (cases "span_start p < e")
    case True
    then show ?thesis using ih by simp
  next
    case False
    then show ?thesis using ih [of "end_offset p"] w b by simp
  qed
qed

lemma compose_render:
  assumes "\<forall>p\<in>set positions. span_within (length str) p"
  shows "c_str (compose positions str) = render plain_span 0 (accepted_spans positions) str \<and>
         chain (length str) 0 (accepted_spans positions)"
proof -
  let ?as = "accepted (Num 0) (sort_positions positions)"
  have as: "accepted_spans positions = ?as"
    by (simp add: accepted_spans_def accepted_from_zero)
  have ch: "chain (length str) 0 ?as"
    using accepted_chain [of "sort_positions positions" "length str" 0] assms
    by (simp add: set_sort_positions)
  have "c_str (fold wrap_span ?as (compositor_init str)) = [] @ render plain_span 0 ?as str"
    by (rule fold_wrap_render [OF ch, where E = "- 1"]) (simp_all add: compositor_init_def)
  moreover have "compose positions str = fold wrap_span ?as (compositor_init str)"
    using fold_wrap_accepted [of "sort_positions positions" "compositor_init str"]
    by (simp add: compose_def compositor_init_def accepted_from_zero)
  ultimately show ?thesis using as ch by simp
qed

lemma to_lower_lt: "to_lower c = CHR ''<'' \<longleftrightarrow> c = CHR ''<''"
  by (auto simp: to_lower_def split: if_splits)

lemma ci_prefix_Cons:
  "ci_prefix (a # p) (c # cs) \<longleftrightarrow> to_lower c = a \<and> ci_prefix p cs"
  by (auto simp: ci_prefix_def)

lemma ci_prefix_Nil [simp]: "ci_prefix [] s"
  by (simp add: ci_prefix_def)

lemma ci_prefix_empty: "ci_prefix (a # p) [] = False"
  by (simp add: ci_prefix_def)

lemma span_match_not_lt: "c \<noteq> CHR ''<'' \<Longrightarrow> span_match (c # cs) = None"
  by (simp add: span_match_def ci_prefix_Cons to_lower_lt)

lemma close_spans_plain:
  "CHR ''<'' \<notin> set xs \<Longrightarrow> close_spans_at_newlines (xs @ R) = xs @ close_spans_at_newlines R"
proof (induction xs)
  case Nil
  then show ?case by simp
next
  case (Cons a xs)
  then have "a \<noteq> CHR ''<''" by auto
  then have "span_match (a # xs @ R) = None" by (rule span_match_not_lt)
  then show ?case using Cons by simp
qed

lemma close_spans_close_tag:
  "close_spans_at_newlines (close_tag @ R) = close_tag @ close_spans_at_newlines R"
proof -
  have "span_match (CHR ''<'' # ''/span>'' @ R) = None"
    by (simp add: span_match_def ci_prefix_Cons to_lower_def)
  then have "close_spans_at_newlines (CHR ''<'' # ''/span>'' @ R)
               = CHR ''<'' # close_spans_at_newlines (''/span>'' @ R)"
    by simp
  also have "close_spans_at_newlines (''/span>'' @ R) = ''/span>'' @ close_spans_at_newlines R"
    by (rule close_spans_plain) simp
  finally show ?thesis by (simp add: close_tag_def)
qed

lemma match_sub_close_tag: "match_sub (close_tag @ R) = Some ([], close_tag)"
proof -
  have "ci_prefix ''</span>'' (CHR ''<'' # ''/span>'' @ R)"
    by (simp add: ci_prefix_Cons to_lower_def)
  then show ?thesis by (simp add: close_tag_def)
qed

lemma match_sub_body:
  "CHR ''<'' \<notin> set body \<Longrightarrow>
     match_sub (body @ close_tag @ R) = (if units_ok body then Some (body, close_tag) else None)"
proof (induction body rule: units_ok.induct)
  case 1
  then show ?case by (simp add: match_sub_close_tag)
next
  case (2 c cs)
  have "c \<noteq> CHR ''<''" using "2.prems" by auto
  then have nc: "\<not> ci_prefix ''</span>'' (c # cs @ close_tag @ R)"
    by (simp add: ci_prefix_Cons to_lower_lt)
  show ?case
  proof (cases "line_terminator c")
    case False
    then show ?thesis using 2 nc by simp
  next
    case True
    show ?thesis
    proof (cases "c = CR \<and> prefix [LF] cs")
      case crlf: True
      then obtain ds where ds: "cs = LF # ds" by (cases cs) auto
      have "match_sub (ds @ close_tag @ R) = (if units_ok ds then Some (ds, close_tag) else None)"
        using "2.IH"(2) True crlf "2.prems" ds by simp
      then show ?thesis using True crlf nc ds by simp
    next
      case False
      then have "\<not> (c = CR \<and> prefix [LF] (cs @ close_tag @ R))"
        by (cases cs) (auto simp: close_tag_def LF_def)
      then show ?thesis using True False nc by auto
    qed
  qed
qed

lemma match_open_skip:
  assumes "\<forall>x\<in>set Q. x \<noteq> CHR 0x22 \<and> \<not> line_terminator x"
  shows "match_open (Q @ R) = map_option (\<lambda>(t, sub, t1). (Q @ t, sub, t1)) (match_open R)"
  using assms
proof (induction Q)
  case Nil
  then show ?case by (simp add: option.map_ident split_def)
next
  case (Cons a Q)
  then have ih: "match_open (Q @ R) = map_option (\<lambda>(t, sub, t1). (Q @ t, sub, t1)) (match_open R)"
    by simp
  have a: "a \<noteq> CHR 0x22" "\<not> line_terminator a" using Cons.prems by simp_all
  then show ?case using ih by (simp add: option.map_comp comp_def split_def)
qed

lemma match_open_bad_body:
  "\<not> units_ok body \<Longrightarrow> CHR ''>'' \<notin> set body \<Longrightarrow> match_open (body @ X) = None"
proof (induction body)
  case Nil
  then show ?case by simp
next
  case (Cons c cs)
  show ?case
  proof (cases "line_terminator c")
    case True
    then have "c \<noteq> CHR 0x22" by (auto simp: line_terminator_def LF_def CR_def)
    then show ?thesis using True by simp
  next
    case False
    then have u: "\<not> units_ok cs" using Cons.prems(1) by simp
    then obtain d ds where d: "cs = d # ds" by (cases cs) auto
    then have "d \<noteq> CHR ''>''" using Cons.prems(2) by auto
    then have "\<not> prefix ''\">'' (c # cs @ X)" using d by simp
    moreover have "match_open (cs @ X) = None" using Cons.IH [OF u] Cons.prems(2) by simp
    ultimately show ?thesis using False by auto
  qed
qed

lemma match_open_quote_gt:
  assumes "CHR ''<'' \<notin> set body" and "CHR ''>'' \<notin> set body"
  shows "match_open (''\">'' @ body @ close_tag @ R)
           = (if units_ok body then Some (''\">'', body, close_tag) else None)"
proof (cases "units_ok body")
  case True
  then show ?thesis using match_sub_body [OF assms(1), of R] by simp
next
  case False
  have "match_open (body @ close_tag @ R) = None"
    using False assms(2) by (rule match_open_bad_body)
  then show ?thesis using False match_sub_body [OF assms(1), of R]
    by (simp add: line_terminator_def LF_def CR_def)
qed

lemma open_tag_parts:
  "open_tag c = ''<span style=\"'' @ (''color: var(--'' @ c @ '')'') @ ''\">''"
  by (simp add: open_tag_def)

lemma clean_inner:
  "clean_color c \<Longrightarrow> \<forall>x\<in>set (''color: var(--'' @ c @ '')''). x \<noteq> CHR 0x22 \<and> \<not> line_terminator x"
  by (auto simp: clean_color_def line_terminator_def LF_def CR_def)

lemma span_match_span:
  assumes "clean_color c" and "CHR ''<'' \<notin> set body" and "CHR ''>'' \<notin> set body"
  shows "span_match (open_tag c @ body @ close_tag @ R)
           = (if units_ok body then Some (open_tag c, body, close_tag) else None)"
proof -
  let ?Q = "''color: var(--'' @ c @ '')''"
  let ?s = "open_tag c @ body @ close_tag @ R"
  have s: "?s = ''<span style=\"'' @ (?Q @ (''\">'' @ body @ close_tag @ R))"
    by (simp add: open_tag_def)
  have ci: "ci_prefix ''<span style=\"'' ?s"
    unfolding s by (simp add: ci_prefix_Cons to_lower_def)
  have t: "take 13 ?s = ''<span style=\"''" "drop 13 ?s = ?Q @ (''\">'' @ body @ close_tag @ R)"
    unfolding s by simp_all
  have "match_open (?Q @ (''\">'' @ body @ close_tag @ R))
          = map_option (\<lambda>(t, sub, t1). (?Q @ t, sub, t1)) (match_open (''\">'' @ body @ close_tag @ R))"
    by (rule match_open_skip) (rule clean_inner [OF assms(1)])
  then have "match_open (drop 13 ?s)
          = (if units_ok body then Some (?Q @ ''\">'', body, close_tag) else None)"
    unfolding t(2) match_open_quote_gt [OF assms(2,3)] by simp
  then show ?thesis
    unfolding span_match_def using ci t(1) by (simp add: open_tag_def)
qed

lemma close_spans_unfold:
  assumes "s \<noteq> []"
  shows "close_spans_at_newlines s =
     (case span_match s of
        None \<Rightarrow> hd s # close_spans_at_newlines (tl s)
      | Some (text0, sub, text1) \<Rightarrow>
          reopen_span text0 sub text1
            @ close_spans_at_newlines (drop (length text0 + length sub + length text1 - 1) (tl s)))"
proof (cases s)
  case Nil
  then show ?thesis using assms by simp
next
  case (Cons a list)
  show ?thesis unfolding Cons by (simp split: option.splits)
qed

lemma clean_color_no_lt: "clean_color c \<Longrightarrow> CHR ''<'' \<notin> set c \<and> CHR ''>'' \<notin> set c \<and> CHR 0x22 \<notin> set c"
  by (auto simp: clean_color_def)

lemma close_spans_span:
  assumes "clean_color c" and "CHR ''<'' \<notin> set body" and "CHR ''>'' \<notin> set body"
  shows "close_spans_at_newlines (plain_span c body @ R) = closed_span c body @ close_spans_at_newlines R"
proof -
  let ?s = "open_tag c @ body @ close_tag @ R"
  have ne: "?s \<noteq> []" by (simp add: open_tag_def)
  have tl: "tl ?s = tl (open_tag c) @ body @ close_tag @ R" "hd ?s = CHR ''<''"
    "open_tag c = CHR ''<'' # tl (open_tag c)"
    by (simp_all add: open_tag_def)
  show ?thesis
  proof (cases "units_ok body")
    case True
    then have m: "span_match ?s = Some (open_tag c, body, close_tag)"
      using span_match_span [OF assms] by simp
    have l: "length (open_tag c) + length body + length close_tag - 1
               = length (tl (open_tag c) @ body @ close_tag)"
      by (simp add: open_tag_def)
    have "drop (length (open_tag c) + length body + length close_tag - 1) (tl ?s) = R"
      unfolding tl(1) l by simp
    then show ?thesis
      using close_spans_unfold [OF ne] m True by (simp add: closed_span_def plain_span_def)
  next
    case False
    then have m: "span_match ?s = None" using span_match_span [OF assms] by simp
    have "CHR ''<'' \<notin> set (tl (open_tag c) @ body)"
      using assms(2) clean_color_no_lt [OF assms(1)] by (simp add: open_tag_def)
    then have "close_spans_at_newlines ((tl (open_tag c) @ body) @ close_tag @ R)
                 = (tl (open_tag c) @ body) @ close_spans_at_newlines (close_tag @ R)"
      by (rule close_spans_plain)
    then have "close_spans_at_newlines (tl ?s) = tl (open_tag c) @ body @ close_tag @ close_spans_at_newlines R"
      using tl(1) by (simp add: close_spans_close_tag)
    then have "close_spans_at_newlines ?s = CHR ''<'' # tl (open_tag c) @ body @ close_tag @ close_spans_at_newlines R"
      using close_spans_unfold [OF ne] m tl(2) by simp
    then show ?thesis using False tl(3) by (simp add: closed_span_def plain_span_def)
  qed
qed

lemma tag_length_not_lt: "c \<noteq> CHR ''<'' \<Longrightarrow> tag_length (c # cs) = 0"
  by (simp add: tag_length_def)

lemma strip_from_plain:
  "CHR ''<'' \<notin> set xs \<Longrightarrow> strip_from 0 (xs @ R) = xs @ strip_from 0 R"
proof (induction xs)
  case Nil
  then show ?case by simp
next
  case (Cons a xs)
  then have "a \<noteq> CHR ''<''" by auto
  then have "tag_length (a # xs @ R) = 0" by (rule tag_length_not_lt)
  then show ?case using Cons by simp
qed

lemma strip_from_skip: "length xs = k \<Longrightarrow> strip_from k (xs @ R) = strip_from 0 R"
  by (induction xs arbitrary: k) auto

lemma strip_from_tag:
  assumes "tag_length (t @ R) = length t" and "t \<noteq> []"
  shows "strip_from 0 (t @ R) = strip_from 0 R"
proof -
  obtain a u where t: "t = a # u" using assms(2) by (cases t) auto
  have "tag_length (a # u @ R) = Suc (length u)" using assms(1) t by simp
  then have "strip_from 0 (a # u @ R) = strip_from (length u) (u @ R)" by simp
  then show ?thesis using t strip_from_skip [of u "length u" R] by simp
qed

lemma tag_length_close: "tag_length (close_tag @ R) = length close_tag"
  by (simp add: tag_length_def close_tag_def)

lemma takeWhile_inner:
  "\<forall>x\<in>set Q. x \<noteq> CHR 0x22 \<Longrightarrow> takeWhile (\<lambda>x. x \<noteq> CHR 0x22) (Q @ CHR 0x22 # R) = Q"
  by (induction Q) auto

lemma tag_length_open:
  assumes "clean_color c"
  shows "tag_length (open_tag c @ R) = length (open_tag c)"
proof -
  define Q where "Q = ''color: var(--'' @ c @ '')''"
  have q: "\<forall>x\<in>set Q. x \<noteq> CHR 0x22" using clean_inner [OF assms] unfolding Q_def by blast
  have p3: "prefix ''color: var(--'' Q" by (simp add: Q_def)
  have p4: "suffix '')'' Q" by (simp add: Q_def suffix_def)
  have o: "open_tag c = ''<span style=\"'' @ Q @ ''\">''" by (simp add: open_tag_def Q_def)
  have s: "open_tag c @ R = ''<span style=\"'' @ (Q @ CHR 0x22 # (CHR ''>'' # R))"
    by (simp add: o)
  have d: "drop 13 (open_tag c @ R) = Q @ CHR 0x22 # (CHR ''>'' # R)" unfolding s by simp
  have tw: "takeWhile (\<lambda>x. x \<noteq> CHR 0x22) (drop 13 (open_tag c @ R)) = Q"
    unfolding d by (rule takeWhile_inner [OF q])
  have p1: "\<not> prefix ''</span>'' (open_tag c @ R)" unfolding s by simp
  have p2: "prefix ''<span style=\"'' (open_tag c @ R)" unfolding s by simp
  have "drop (13 + length Q) (open_tag c @ R) = drop (length Q) (drop 13 (open_tag c @ R))"
    by (simp only: drop_drop add.commute)
  then have p5: "prefix ''\">'' (drop (13 + length Q) (open_tag c @ R))" unfolding d by simp
  have l: "length (open_tag c) = 13 + length Q + 2" by (simp add: o)
  show ?thesis
    unfolding tag_length_def Let_def tw l using p1 p2 p3 p4 p5 by simp
qed

lemma strip_from_open:
  "clean_color c \<Longrightarrow> strip_from 0 (open_tag c @ R) = strip_from 0 R"
  by (rule strip_from_tag [OF tag_length_open]) (simp_all add: open_tag_def)

lemma strip_from_close: "strip_from 0 (close_tag @ R) = strip_from 0 R"
  by (rule strip_from_tag [OF tag_length_close]) (simp add: close_tag_def)

lemma strip_from_plain_span:
  assumes "clean_color c" and "CHR ''<'' \<notin> set body"
  shows "strip_from 0 (plain_span c body @ R) = body @ strip_from 0 R"
  using assms by (simp add: plain_span_def strip_from_open strip_from_plain strip_from_close)

lemma strip_from_reopened:
  assumes "clean_color c" and "CHR ''<'' \<notin> set body"
  shows "strip_from 0 (replace_char LF (close_tag @ [LF] @ open_tag c) body @ R) = body @ strip_from 0 R"
  using assms(2)
proof (induction body)
  case Nil
  then show ?case by (simp add: replace_char_def)
next
  case (Cons a body)
  then have ih: "strip_from 0 (replace_char LF (close_tag @ [LF] @ open_tag c) body @ R) = body @ strip_from 0 R"
    and a: "a \<noteq> CHR ''<''" by auto
  have rc: "replace_char LF t (x # body) = (if x = LF then t else [x]) @ replace_char LF t body" for t x
    by (simp add: replace_char_def)
  show ?case
  proof (cases "a = LF")
    case True
    have "strip_from 0 (close_tag @ ([LF] @ (open_tag c @ (replace_char LF (close_tag @ [LF] @ open_tag c) body @ R))))
            = LF # body @ strip_from 0 R"
      unfolding strip_from_close
      using strip_from_plain [of "[LF]"] a True ih by (simp add: strip_from_open [OF assms(1)])
    then show ?thesis using True by (simp add: rc)
  next
    case False
    then show ?thesis using a ih strip_from_plain [of "[a]"] by (simp add: rc)
  qed
qed

lemma strip_from_closed_span:
  assumes "clean_color c" and "CHR ''<'' \<notin> set body"
  shows "strip_from 0 (closed_span c body @ R) = body @ strip_from 0 R"
proof (cases "units_ok body \<and> index_of [LF] body \<noteq> None")
  case True
  have "strip_from 0 (open_tag c @ (replace_char LF (close_tag @ [LF] @ open_tag c) body @ (close_tag @ R)))
          = body @ strip_from 0 R"
    unfolding strip_from_open [OF assms(1)] strip_from_reopened [OF assms] strip_from_close ..
  then show ?thesis using True by (auto simp: closed_span_def reopen_span_def)
next
  case False
  then have "closed_span c body = plain_span c body"
    by (auto simp: closed_span_def reopen_span_def plain_span_def)
  then show ?thesis using strip_from_plain_span [OF assms] by simp
qed

lemma render_pieces:
  assumes "e \<le> s" and "s \<le> en" and "en \<le> length str"
  shows "take (s - e) (drop e str) @ take (en - s) (drop s str) @ drop en str = drop e str"
proof -
  have "take (en - s) (drop s str) @ drop en str = drop s str"
    using assms by (metis add_diff_inverse_nat append_take_drop_id drop_drop leD add.commute)
  moreover have "take (s - e) (drop e str) @ drop s str = drop e str"
    using assms by (metis add_diff_inverse_nat append_take_drop_id drop_drop leD add.commute)
  ultimately show ?thesis by simp
qed

lemma strip_render:
  assumes wrap: "\<And>c body R. clean_color c \<Longrightarrow> CHR ''<'' \<notin> set body \<Longrightarrow>
                   strip_from 0 (wrap c body @ R) = body @ strip_from 0 R"
    and "chain (length str) e ps" and "CHR ''<'' \<notin> set str"
    and "\<forall>p\<in>set ps. clean_color (span_color p)"
  shows "strip_from 0 (render wrap e ps str) = drop e str"
  using assms(2,4)
proof (induction ps arbitrary: e)
  case Nil
  have "CHR ''<'' \<notin> set (drop e str)" using assms(3) by (meson in_set_dropD)
  then show ?case using strip_from_plain [of "drop e str" "[]"] by simp
next
  case (Cons p ps)
  from Cons.prems(1) have c: "e \<le> span_start p" "span_within (length str) p"
    "chain (length str) (end_offset p) ps" by simp_all
  from span_within_end [OF c(2)] have b: "span_start p \<le> end_offset p" "end_offset p \<le> length str"
    by simp_all
  let ?t = "take (span_start p - e) (drop e str)"
  let ?body = "take (end_offset p - span_start p) (drop (span_start p) str)"
  have nt: "CHR ''<'' \<notin> set ?t" using assms(3) by (meson in_set_dropD in_set_takeD)
  have nb: "CHR ''<'' \<notin> set ?body" using assms(3) by (meson in_set_dropD in_set_takeD)
  have cl: "clean_color (span_color p)" using Cons.prems(2) by simp
  have ih: "strip_from 0 (render wrap (end_offset p) ps str) = drop (end_offset p) str"
    using Cons.IH [OF c(3)] Cons.prems(2) by simp
  have "strip_from 0 (?t @ (wrap (span_color p) ?body @ render wrap (end_offset p) ps str))
          = ?t @ ?body @ drop (end_offset p) str"
    unfolding strip_from_plain [OF nt] wrap [OF cl nb] ih ..
  then show ?case using render_pieces [OF c(1) b] by simp
qed

lemma close_spans_render:
  assumes "chain (length str) e ps" and "CHR ''<'' \<notin> set str" and "CHR ''>'' \<notin> set str"
    and "\<forall>p\<in>set ps. clean_color (span_color p)"
  shows "close_spans_at_newlines (render plain_span e ps str) = render closed_span e ps str"
  using assms(1,4)
proof (induction ps arbitrary: e)
  case Nil
  have "CHR ''<'' \<notin> set (drop e str)" using assms(2) by (meson in_set_dropD)
  then show ?case using close_spans_plain [of "drop e str" "[]"] by simp
next
  case (Cons p ps)
  from Cons.prems(1) have c: "chain (length str) (end_offset p) ps" by simp
  let ?t = "take (span_start p - e) (drop e str)"
  let ?body = "take (end_offset p - span_start p) (drop (span_start p) str)"
  have nt: "CHR ''<'' \<notin> set ?t" using assms(2) by (meson in_set_dropD in_set_takeD)
  have nb: "CHR ''<'' \<notin> set ?body" "CHR ''>'' \<notin> set ?body"
    using assms(2,3) by (meson in_set_dropD in_set_takeD)+
  have cl: "clean_color (span_color p)" using Cons.prems(2) by simp
  have ih: "close_spans_at_newlines (render plain_span (end_offset p) ps str)
              = render closed_span (end_offset p) ps str"
    using Cons.IH [OF c] Cons.prems(2) by simp
  have "close_spans_at_newlines (?t @ (plain_span (span_color p) ?body @ render plain_span (end_offset p) ps str))
          = ?t @ closed_span (span_color p) ?body @ render closed_span (end_offset p) ps str"
    unfolding close_spans_plain [OF nt] close_spans_span [OF cl nb] ih ..
  then show ?case by simp
qed

lemma compose_keeps_text:
  assumes "CHR ''<'' \<notin> set str" and "CHR ''>'' \<notin> set str"
    and "\<forall>p\<in>set positions. span_within (length str) p \<and> clean_color (span_color p)"
  shows "strip_tags (c_str (compose positions str)) = str \<and>
         strip_tags (close_spans_at_newlines (c_str (compose positions str))) = str"
proof -
  let ?as = "accepted_spans positions"
  have w: "\<forall>p\<in>set positions. span_within (length str) p" using assms(3) by blast
  from compose_render [OF w] have r: "c_str (compose positions str) = render plain_span 0 ?as str"
    and ch: "chain (length str) 0 ?as" by simp_all
  have "set ?as \<subseteq> set positions"
    using accepted_subset [of "Num (- 1)" "sort_positions positions"]
    by (simp add: accepted_spans_def set_sort_positions)
  then have cl: "\<forall>p\<in>set ?as. clean_color (span_color p)" using assms(3) by blast
  have a: "strip_from 0 (render plain_span 0 ?as str) = drop 0 str"
    by (rule strip_render [OF _ ch assms(1) cl]) (rule strip_from_plain_span)
  have b: "strip_from 0 (render closed_span 0 ?as str) = drop 0 str"
    by (rule strip_render [OF _ ch assms(1) cl]) (rule strip_from_closed_span)
  show ?thesis
    unfolding r close_spans_render [OF ch assms(1,2) cl] strip_tags_def using a b by simp
qed

lemma span_of_match_within:
  assumes "span_of_match 0 color str m = Inr p" and "sound_match str m"
  shows "span_within (length str) p"
proof -
  from assms(2) obtain g gs where g: "m_groups m = g # gs" by (cases "m_groups m") (auto simp: sound_match_def)
  show ?thesis
  proof (cases g)
    case None
    then show ?thesis using assms(1) g
      by (simp add: span_of_match_def js_nth_def callback_groups_def)
  next
    case (Some t)
    then have "sublist t (m_text m)" using assms(2) g by (simp add: sound_match_def)
    then obtain k where k: "index_of t (m_text m) = Some k" using sublist_index_of by blast
    then have f: "first_offset t (m_text m) k" by (simp add: index_of_first_offset)
    then have b: "k + length t \<le> length (m_text m)" by (simp add: first_offset_def)
    have "0 < length (m_groups m)" "m_groups m ! 0 = Some t" using g Some by simp_all
    from span_of_match_capture [OF this k, of color str] assms(1)
    have p: "p = (m_offset m + k, color, Num (int (m_offset m + k + length t)))" by simp
    have "m_offset m + length (m_text m) \<le> length str" using assms(2) by (simp add: sound_match_def)
    then show ?thesis using b unfolding p by (simp add: span_within_def span_end_def span_start_def)
  qed
qed

lemma scan_rules_within:
  assumes "scan_rules table engine str keys = Inr ps"
    and "\<forall>key\<in>set keys. rule_index key = 0"
    and "\<And>pat ms m. engine pat str = Inr ms \<Longrightarrow> m \<in> set ms \<Longrightarrow> sound_match str m"
  shows "\<forall>p\<in>set ps. span_within (length str) p"
  using assms(1,2)
proof (induction keys arbitrary: ps)
  case Nil
  then show ?case by simp
next
  case (Cons key keys)
  from Cons.prems(1) obtain qs rs where
    q: "scan_rule table engine str key = Inr qs" and
    r: "scan_rules table engine str keys = Inr rs" and ps: "ps = qs @ rs"
    by (auto split: sum.splits)
  from q obtain ms where ms: "engine (rule_regex key) str = Inr ms"
    and c: "collect_spans (span_of_match (rule_index key) (rule_color table key) str) ms = Inr qs"
    by (auto simp: scan_rule_def split: sum.splits)
  have k0: "rule_index key = 0" using Cons.prems(2) by simp
  have "\<forall>p\<in>set qs. span_within (length str) p"
    using c unfolding k0
    by (rule collect_spans_all) (use assms(3) [OF ms] in \<open>blast intro: span_of_match_within\<close>)
  moreover have "\<forall>p\<in>set rs. span_within (length str) p" using Cons.IH [OF r] Cons.prems(2) by simp
  ultimately show ?case using ps by auto
qed

lemma try_block_keeps_text:
  assumes "try_block engine (escape s) = Inr t"
    and "\<And>pat ms m. engine pat (escape s) = Inr ms \<Longrightarrow> m \<in> set ms \<Longrightarrow> sound_match (escape s) m"
  shows "strip_tags t = escape s"
proof -
  from assms(1) obtain ps where ps: "scan engine (escape s) = Inr ps"
    and t: "t = close_spans_at_newlines (c_str (compose ps (escape s)))"
    by (auto simp: try_block_def split: sum.splits)
  have w: "\<forall>p\<in>set ps. span_within (length (escape s)) p"
    using ps [unfolded scan_def]
    by (rule scan_rules_within) (use Colors_plain_keys assms(2) in auto)
  have c: "\<forall>p\<in>set ps. clean_color (span_color p)" by (rule scan_colors_clean [OF ps])
  show ?thesis
    unfolding t
    using compose_keeps_text [of "escape s" ps] escape_no_angle [of s] w c by blast
qed

text \<open>
  C10.  Content preservation through composition.  Let the text contain no angle
  bracket, as every escaped input does, and let every candidate span lie within the text
  and carry a category name that can stand inside the opening tag (the scanner of the
  program yields no other spans, see \<open>scan_rules_within\<close> and \<open>scan_colors_clean\<close>).  Then
  deleting every whole tag of the form \<^verbatim>\<open><span style="color: var(--CATEGORY)">\<close> or
  \<^verbatim>\<open></span>\<close> from the composed text gives back the text character for character, and
  likewise after the spans were closed and reopened at line ends.
\<close>

theorem content_preserved:
  assumes "CHR ''<'' \<notin> set str" and "CHR ''>'' \<notin> set str"
    and "\<forall>p\<in>set positions. span_within (length str) p \<and> clean_color (span_color p)"
  shows "strip_tags (c_str (compose positions str)) = str \<and>
         strip_tags (close_spans_at_newlines (c_str (compose positions str))) = str"
  using assms by (rule compose_keeps_text)

theorem content_preserved_witness:
  "strip_tags (close_spans_at_newlines
      (c_str (compose [(2, ''COMMENT'', Num 9), (0, ''STORAGE'', Num 1)] (''a /*'' @ [CR, LF] @ ''*/ b''))))
     = ''a /*'' @ [CR, LF] @ ''*/ b''"
proof -
  have a: "CHR ''<'' \<notin> set (''a /*'' @ [CR, LF] @ ''*/ b'')" by (simp add: CR_def LF_def)
  have b: "CHR ''>'' \<notin> set (''a /*'' @ [CR, LF] @ ''*/ b'')" by (simp add: CR_def LF_def)
  have c: "\<forall>p\<in>set [(2, ''COMMENT'', Num 9), (0, ''STORAGE'', Num 1)].
             span_within (length (''a /*'' @ [CR, LF] @ ''*/ b'')) p \<and> clean_color (span_color p)"
    by (simp add: span_within_def span_end_def span_start_def span_color_def clean_color_def
          line_terminator_def LF_def CR_def)
  from content_preserved [OF a b c] show ?thesis by simp
qed

section \<open>The sample runtime is sound\<close>

lemma sample_matches_sound:
  "\<forall>entry\<in>set sample_matches. \<forall>m\<in>set (concat (map snd (snd entry))). sound_match (fst entry) m"
  by code_simp

lemma sample_engine_sound:
  assumes "sample_engine pat subject = Inr ms" and "m \<in> set ms"
  shows "sound_match subject m"
proof (cases "map_of sample_matches subject")
  case None
  then show ?thesis using assms by (simp add: sample_engine_def)
next
  case (Some rules)
  then have e: "(subject, rules) \<in> set sample_matches" by (rule map_of_SomeD)
  have "m \<in> set (concat (map snd rules))" using assms Some by (force simp: sample_engine_def)
  then show ?thesis using sample_matches_sound e by fastforce
qed

text \<open>Every sample match lies in its subject at the offset it reports.\<close>

lemma sample_matches_in_subject:
  "\<forall>entry\<in>set sample_matches. \<forall>m\<in>set (concat (map snd (snd entry))).
     take (length (m_text m)) (drop (m_offset m) (fst entry)) = m_text m"
  by code_simp

section \<open>The colour at a tied position\<close>

lemma color_from_plain:
  "CHR ''<'' \<notin> set t \<Longrightarrow>
   color_from 0 cur k (t @ R) = (if k < length t then cur else color_from 0 cur (k - length t) R)"
proof (induction t arbitrary: k)
  case Nil
  then show ?case by simp
next
  case (Cons a t)
  then have "a \<noteq> CHR ''<''" by auto
  then have tl: "tag_length (a # t @ R) = 0" by (rule tag_length_not_lt)
  have ih: "color_from 0 cur j (t @ R) = (if j < length t then cur else color_from 0 cur (j - length t) R)" for j
    using Cons by simp
  show ?case
  proof (cases k)
    case 0
    then show ?thesis using tl by simp
  next
    case (Suc j)
    then show ?thesis using tl ih [of j] by simp
  qed
qed

lemma color_from_skip: "length xs = n \<Longrightarrow> color_from n cur k (xs @ R) = color_from 0 cur k R"
  by (induction xs arbitrary: n) auto

lemma tag_category_open:
  assumes "clean_color c"
  shows "tag_category (open_tag c @ R) = c"
proof -
  have "tag_length (open_tag c @ R) = 29 + length c"
    using tag_length_open [OF assms, of R] by (simp add: open_tag_def)
  then show ?thesis by (simp add: tag_category_def open_tag_def)
qed

lemma color_from_open:
  assumes "clean_color c"
  shows "color_from 0 cur k (open_tag c @ R) = color_from 0 (Some c) k R"
proof -
  obtain u where u: "open_tag c = CHR ''<'' # u" by (simp add: open_tag_def)
  have tl: "tag_length (CHR ''<'' # u @ R) = Suc (length u)"
    using tag_length_open [OF assms, of R] u by simp
  have tc: "tag_category (CHR ''<'' # u @ R) = c" using tag_category_open [OF assms, of R] u by simp
  have np: "\<not> prefix close_tag (CHR ''<'' # u @ R)"
    using u by (auto simp: open_tag_def close_tag_def)
  have "color_from 0 cur k (CHR ''<'' # u @ R) = color_from (length u) (Some c) k (u @ R)"
    using tl tc np by simp
  then show ?thesis using u color_from_skip [of u "length u" "Some c" k R] by simp
qed

lemma color_from_close: "color_from 0 cur k (close_tag @ R) = color_from 0 None k R"
proof -
  have "tag_length (''</span>'' @ R) = 7" using tag_length_close [of R] by (simp add: close_tag_def)
  then have "color_from 0 cur k (''</span>'' @ R) = color_from 6 None k (''/span>'' @ R)"
    by (simp add: close_tag_def)
  then show ?thesis using color_from_skip [of "''/span>''" 6 None k R] by (simp add: close_tag_def)
qed

lemma chain_starts: "chain n e ps \<Longrightarrow> \<forall>q\<in>set ps. e \<le> span_start q"
proof (induction ps arbitrary: e)
  case Nil
  then show ?case by simp
next
  case (Cons p ps)
  then have c: "e \<le> span_start p" "span_within n p" "chain n (end_offset p) ps" by simp_all
  from span_within_end [OF c(2)] have "span_start p \<le> end_offset p" by simp
  then show ?case using Cons.IH [OF c(3)] c(1) by fastforce
qed

lemma find_none: "\<forall>q\<in>set ps. \<not> P q \<Longrightarrow> find P ps = None"
  by (induction ps) auto

lemma color_render:
  assumes "chain (length str) e ps" and "CHR ''<'' \<notin> set str"
    and "\<forall>p\<in>set ps. clean_color (span_color p)" and "e \<le> k"
  shows "color_from 0 None (k - e) (render plain_span e ps str)
           = map_option span_color (find (\<lambda>p. span_start p \<le> k \<and> k < end_offset p) ps)"
  using assms(1,3,4)
proof (induction ps arbitrary: e)
  case Nil
  have "CHR ''<'' \<notin> set (drop e str)" using assms(2) by (meson in_set_dropD)
  then show ?case using color_from_plain [of "drop e str" None "k - e" "[]"] by simp
next
  case (Cons p ps)
  from Cons.prems(1) have c: "e \<le> span_start p" "span_within (length str) p"
    "chain (length str) (end_offset p) ps" by simp_all
  from span_within_end [OF c(2)] have b: "span_start p \<le> end_offset p" "end_offset p \<le> length str"
    by simp_all
  define s where "s = span_start p"
  define en where "en = end_offset p"
  define A where "A = take (s - e) (drop e str)"
  define body where "body = take (en - s) (drop s str)"
  define R where "R = render plain_span en ps str"
  have lA: "length A = s - e" using c(1) b by (simp add: A_def s_def en_def)
  have lb: "length body = en - s" using b by (simp add: body_def s_def en_def)
  have nA: "CHR ''<'' \<notin> set A" using assms(2) unfolding A_def by (meson in_set_dropD in_set_takeD)
  have nb: "CHR ''<'' \<notin> set body" using assms(2) unfolding body_def by (meson in_set_dropD in_set_takeD)
  have cl: "clean_color (span_color p)" using Cons.prems(2) by simp
  have r: "render plain_span e (p # ps) str
             = A @ (open_tag (span_color p) @ (body @ (close_tag @ R)))"
    by (simp add: A_def body_def R_def s_def en_def plain_span_def)
  show ?case
  proof (cases "k < s")
    case True
    have "\<forall>q\<in>set ps. en \<le> span_start q" using chain_starts [OF c(3)] by (simp add: en_def)
    then have "\<forall>q\<in>set (p # ps). \<not> (span_start q \<le> k \<and> k < end_offset q)"
      using True b by (auto simp: s_def en_def)
    then have "find (\<lambda>p. span_start p \<le> k \<and> k < end_offset p) (p # ps) = None"
      by (rule find_none)
    moreover have "k - e < s - e" using True Cons.prems(3) by arith
    then have "color_from 0 None (k - e) (render plain_span e (p # ps) str) = None"
      unfolding r color_from_plain [OF nA] lA by simp
    ultimately show ?thesis by simp
  next
    case False
    then have sk: "s \<le> k" by simp
    have es: "e \<le> s" using c(1) by (simp add: s_def)
    have k1: "\<not> k - e < s - e" using sk es by arith
    have k2: "k - e - (s - e) = k - s" using sk es by arith
    have step: "color_from 0 None (k - e) (render plain_span e (p # ps) str)
                  = (if k - s < en - s then Some (span_color p) else color_from 0 None (k - s - (en - s)) R)"
      unfolding r color_from_plain [OF nA] lA
      using k1 k2 by (simp add: color_from_open [OF cl] color_from_plain [OF nb] lb color_from_close)
    show ?thesis
    proof (cases "k < en")
      case True
      then have "k - s < en - s" using sk by arith
      moreover have "find (\<lambda>p. span_start p \<le> k \<and> k < end_offset p) (p # ps) = Some p"
        using sk True by (simp add: s_def en_def)
      ultimately show ?thesis using step by simp
    next
      case False
      then have ek: "en \<le> k" by simp
      have se: "s \<le> en" using b by (simp add: s_def en_def)
      have n: "\<not> k - s < en - s" using ek se by arith
      have k3: "k - s - (en - s) = k - en" using ek se by arith
      have ih: "color_from 0 None (k - en) R
                  = map_option span_color (find (\<lambda>p. span_start p \<le> k \<and> k < end_offset p) ps)"
        unfolding R_def en_def
        by (rule Cons.IH) (use c(3) Cons.prems(2) ek in \<open>simp_all add: en_def\<close>)
      have "find (\<lambda>p. span_start p \<le> k \<and> k < end_offset p) (p # ps)
              = find (\<lambda>p. span_start p \<le> k \<and> k < end_offset p) ps"
        using False by (simp add: en_def)
      then show ?thesis using step n k3 ih by simp
    qed
  qed
qed

lemma compose_color_at:
  assumes "\<forall>p\<in>set positions. span_within (length str) p \<and> clean_color (span_color p)"
    and "CHR ''<'' \<notin> set str"
  shows "color_at (c_str (compose positions str)) k
           = map_option span_color
               (find (\<lambda>p. span_start p \<le> k \<and> k < end_offset p) (accepted_spans positions))"
proof -
  from compose_render [of positions str] assms(1)
  have r: "c_str (compose positions str) = render plain_span 0 (accepted_spans positions) str"
    and ch: "chain (length str) 0 (accepted_spans positions)" by simp_all
  have cl: "\<forall>p\<in>set (accepted_spans positions). clean_color (span_color p)"
    using assms(1) accepted_subset [of "Num (- 1)" "sort_positions positions"]
    by (auto simp: accepted_spans_def set_sort_positions)
  show ?thesis
    unfolding color_at_def r
    using color_render [OF ch assms(2) cl, of k] by simp
qed

lemma find_some_mem: "find P xs = Some x \<Longrightarrow> P x \<and> x \<in> set xs"
  by (induction xs) (auto split: if_splits)

lemma find_exists: "x \<in> set xs \<Longrightarrow> P x \<Longrightarrow> \<exists>y. find P xs = Some y"
  by (induction xs) auto

lemma scan_rules_concat:
  "scan_rules table engine str keys = Inr ps \<Longrightarrow>
     \<exists>pss. ps = concat pss \<and> length pss = length keys \<and>
       (\<forall>i<length keys. scan_rule table engine str (keys ! i) = Inr (pss ! i))"
proof (induction keys arbitrary: ps)
  case Nil
  then show ?case by simp
next
  case (Cons key keys)
  from Cons.prems obtain qs rs where
    q: "scan_rule table engine str key = Inr qs" and
    r: "scan_rules table engine str keys = Inr rs" and ps: "ps = qs @ rs"
    by (auto split: sum.splits)
  from Cons.IH [OF r] obtain pss where
    p: "rs = concat pss" "length pss = length keys"
       "\<forall>i<length keys. scan_rule table engine str (keys ! i) = Inr (pss ! i)" by blast
  have "\<forall>i<length (key # keys). scan_rule table engine str ((key # keys) ! i) = Inr ((qs # pss) ! i)"
  proof (intro allI impI)
    fix i assume "i < length (key # keys)"
    then show "scan_rule table engine str ((key # keys) ! i) = Inr ((qs # pss) ! i)"
      using q p(3) by (cases i) auto
  qed
  moreover have "ps = concat (qs # pss)" using ps p(1) by simp
  moreover have "length (qs # pss) = length (key # keys)" using p(2) by simp
  ultimately show ?case by blast
qed

text \<open>
  C3 (amended).  Tie-break by declaration order.  The scanner pushes the candidates rule
  by rule in the order of the table, and the candidates are sorted by start offset with
  a stable sort, so candidates with the same start keep the order in which the rules
  were declared.  Let \<open>s1\<close> be the first candidate pushed that starts at its
  offset (the one of the earliest-declared rule), and let it be non-empty.  Then \<open>s1\<close> is
  the only candidate starting there that can be accepted: a later-declared rule never
  wins the tie.  It is accepted, and the composed text shows the character at that
  offset in its category, exactly when no accepted span that starts earlier extends
  beyond that offset.  Otherwise every candidate starting at that offset is discarded
  and the character is shown in the category of that earlier span.
\<close>

theorem tie_break_declaration_order:
  assumes sc: "scan engine (escape src) = Inr positions"
      and sound: "\<And>pat ms m. engine pat (escape src) = Inr ms \<Longrightarrow> m \<in> set ms \<Longrightarrow> sound_match (escape src) m"
      and first: "find (\<lambda>s. span_start s = span_start s1) positions = Some s1"
      and nonempty: "js_less (int (span_start s1)) (span_end s1)"
  shows "(\<exists>pss. positions = concat pss \<and> length pss = length Colors \<and>
            (\<forall>i<length Colors. scan_rule Colors engine (escape src) (fst (Colors ! i)) = Inr (pss ! i))) \<and>
         filter (\<lambda>s. span_start s = span_start s1) (sort_positions positions)
           = filter (\<lambda>s. span_start s = span_start s1) positions \<and>
         filter (\<lambda>s. span_start s = span_start s1) (accepted_spans positions)
           = (if \<forall>q\<in>set (accepted_spans positions).
                    span_start q < span_start s1 \<longrightarrow> js_ge (int (span_start s1)) (span_end q)
              then [s1] else []) \<and>
         (if \<forall>q\<in>set (accepted_spans positions).
                span_start q < span_start s1 \<longrightarrow> js_ge (int (span_start s1)) (span_end q)
          then color_at (c_str (compose positions (escape src))) (span_start s1) = Some (span_color s1)
          else \<exists>q\<in>set (accepted_spans positions).
                 span_start q < span_start s1 \<and> js_less (int (span_start s1)) (span_end q) \<and>
                 color_at (c_str (compose positions (escape src))) (span_start s1) = Some (span_color q))"
proof -
  define str where "str = escape src"
  define s where "s = span_start s1"
  define acc where "acc = accepted_spans positions"
  define covers where "covers = (\<lambda>p. span_start p \<le> s \<and> s < end_offset p)"
  have w: "\<forall>p\<in>set positions. span_within (length str) p"
    using sc [unfolded scan_def] unfolding str_def
    by (rule scan_rules_within) (use Colors_plain_keys sound in auto)
  have c: "\<forall>p\<in>set positions. clean_color (span_color p)" by (rule scan_colors_clean [OF sc])
  have num: "\<forall>q\<in>set positions. numeric_end q"
    using w by (auto simp: span_within_def numeric_end_def split: jsnum.splits)
  from accepted_tied_first [OF num first nonempty]
  have st: "filter (\<lambda>s. span_start s = span_start s1) (sort_positions positions)
           = filter (\<lambda>s. span_start s = span_start s1) positions"
   and fl: "filter (\<lambda>p. span_start p = s) acc
           = (if \<forall>q\<in>set acc. span_start q < s \<longrightarrow> js_ge (int s) (span_end q) then [s1] else [])"
    unfolding s_def acc_def by simp_all
  have sub: "set acc \<subseteq> set positions"
    using accepted_subset [of "Num (- 1)" "sort_positions positions"]
    by (simp add: acc_def accepted_spans_def set_sort_positions)
  have en: "span_end q = Num (int (end_offset q))" if "q \<in> set acc" for q
    using that sub w span_within_end [of "length str" q] by auto
  have nl: "CHR ''<'' \<notin> set str" using escape_no_angle [of src] by (simp add: str_def)
  have col: "color_at (c_str (compose positions str)) s = map_option span_color (find covers acc)"
    unfolding covers_def acc_def
    by (rule compose_color_at) (use w c nl in auto)
  have order: "\<exists>pss. positions = concat pss \<and> length pss = length Colors \<and>
            (\<forall>i<length Colors. scan_rule Colors engine str (fst (Colors ! i)) = Inr (pss ! i))"
    using scan_rules_concat [OF sc [unfolded scan_def]] by (simp add: str_def)
  have colour: "(if \<forall>q\<in>set acc. span_start q < s \<longrightarrow> js_ge (int s) (span_end q)
          then color_at (c_str (compose positions str)) s = Some (span_color s1)
          else \<exists>q\<in>set acc. span_start q < s \<and> js_less (int s) (span_end q) \<and>
                 color_at (c_str (compose positions str)) s = Some (span_color q))"
  proof (cases "\<forall>q\<in>set acc. span_start q < s \<longrightarrow> js_ge (int s) (span_end q)")
    case True
    then have "filter (\<lambda>p. span_start p = s) acc = [s1]" using fl by simp
    then have "s1 \<in> set (filter (\<lambda>p. span_start p = s) acc)" by simp
    then have m1: "s1 \<in> set acc" by simp
    have "covers s1" using nonempty en [OF m1] by (simp add: covers_def s_def)
    with m1 obtain r where r: "find covers acc = Some r" using find_exists by metis
    from find_some_mem [OF r] have cr: "covers r" and mr: "r \<in> set acc" by simp_all
    have "span_start r = s"
    proof (rule ccontr)
      assume "span_start r \<noteq> s"
      then have lt: "span_start r < s" using cr by (simp add: covers_def)
      then have "js_ge (int s) (span_end r)" using True mr by blast
      then show False using cr en [OF mr] by (simp add: covers_def)
    qed
    then have "r \<in> set (filter (\<lambda>p. span_start p = s) acc)" using mr by simp
    then have "r = s1" using \<open>filter (\<lambda>p. span_start p = s) acc = [s1]\<close> by simp
    then show ?thesis using True col r by simp
  next
    case False
    then obtain q where q: "q \<in> set acc" "span_start q < s" "\<not> js_ge (int s) (span_end q)" by blast
    have "covers q" using q en [OF q(1)] by (simp add: covers_def)
    with q(1) obtain r where r: "find covers acc = Some r" using find_exists by metis
    from find_some_mem [OF r] have cr: "covers r" and mr: "r \<in> set acc" by simp_all
    have "filter (\<lambda>p. span_start p = s) acc = []" using fl False by simp
    then have "span_start r \<noteq> s" using mr by (auto simp: filter_empty_conv)
    then have lt: "span_start r < s" using cr by (simp add: covers_def)
    have "js_less (int s) (span_end r)" using cr en [OF mr] by (simp add: covers_def)
    then show ?thesis using False col r mr lt by auto
  qed
  show ?thesis
    using order st fl colour unfolding str_def s_def acc_def by blast
qed

theorem tie_break_declaration_order_witness:
  "scan sample_engine (escape ''String(x)'')
     = Inr [(0, ''DATA_TYPE'', Num 6), (0, ''FUNCTION'', Num 6),
            (6, ''ARITHMETIC'', Num 7), (8, ''ARITHMETIC'', Num 9)] \<and>
   color_at (c_str (compose [(0, ''DATA_TYPE'', Num 6), (0, ''FUNCTION'', Num 6),
                             (6, ''ARITHMETIC'', Num 7), (8, ''ARITHMETIC'', Num 9)]
                      (escape ''String(x)''))) 0
     = Some ''DATA_TYPE''"
proof -
  let ?ps = "[(0, ''DATA_TYPE'', Num 6), (0, ''FUNCTION'', Num 6),
              (6, ''ARITHMETIC'', Num 7), (8, ''ARITHMETIC'', Num 9)] :: span list"
  have sc: "scan sample_engine (escape ''String(x)'') = Inr ?ps" by code_simp
  have f: "find (\<lambda>s. span_start s = span_start (0, ''DATA_TYPE'', Num 6)) ?ps = Some (0, ''DATA_TYPE'', Num 6)"
    by (simp add: span_start_def)
  have n: "js_less (int (span_start (0, ''DATA_TYPE'', Num 6))) (span_end (0, ''DATA_TYPE'', Num 6))"
    by (simp add: span_start_def span_end_def)
  have a: "accepted_spans ?ps = [(0, ''DATA_TYPE'', Num 6), (6, ''ARITHMETIC'', Num 7), (8, ''ARITHMETIC'', Num 9)]"
    by (simp add: accepted_spans_def sort_positions_def span_start_def span_end_def)
  from tie_break_declaration_order [OF sc sample_engine_sound f n] a sc
  show ?thesis by (simp add: span_start_def span_end_def span_color_def)
qed

text \<open>
  C3 as stated fails.  In \<open>// String(x)\<close> the rules \<open>DATA_TYPE\<close> (declared earlier) and
  \<open>FUNCTION\<close> (declared later) both yield a span that starts at offset 3, yet the
  earlier-declared rule does not win: the comment span that starts at offset 0 covers
  the offset, both candidates are discarded, and the character is shown as \<open>COMMENT\<close>.
\<close>

theorem tie_break_counterexample:
  "scan sample_engine (escape ''// String(x)'')
     = Inr [(0, ''COMMENT'', Num 12), (3, ''DATA_TYPE'', Num 9), (3, ''FUNCTION'', Num 9),
            (0, ''ARITHMETIC'', Num 1), (1, ''ARITHMETIC'', Num 2),
            (9, ''ARITHMETIC'', Num 10), (11, ''ARITHMETIC'', Num 12)] \<and>
   color_at (c_str (compose [(0, ''COMMENT'', Num 12), (3, ''DATA_TYPE'', Num 9), (3, ''FUNCTION'', Num 9),
                             (0, ''ARITHMETIC'', Num 1), (1, ''ARITHMETIC'', Num 2),
                             (9, ''ARITHMETIC'', Num 10), (11, ''ARITHMETIC'', Num 12)]
                      (escape ''// String(x)''))) 3
     = Some ''COMMENT'' \<and>
   Some ''COMMENT'' \<noteq> Some ''DATA_TYPE''"
  by code_simp

end
